theory Spec2Isabelle
  imports Main "HOL-Library.Word"
begin

unbundle bit_operations_syntax

section \<open>Machine types and memory\<close>

text \<open>
  The sources are C for an LP64 target: \<open>size_t\<close> and \<open>unsigned long\<close> are 64-bit
  unsigned, \<open>off_t\<close> is 64-bit two's complement, \<open>unsigned\<close> is 32-bit. All of them are
  words, so every addition and subtraction wraps as the machine's does; a signed
  comparison reads the word with \<open>sint\<close>. Return codes are C \<open>int\<close>s that only ever hold
  0 or a negated errno, and are modelled as \<open>int\<close>.

  A region of memory (a page, a buffer, the bytes behind a segment) is a function from
  the byte index, counted from the region's base, to the byte stored there.
\<close>

type_synonym byte = "8 word"
type_synonym u16 = "16 word"
type_synonym u32 = "32 word"
type_synonym u64 = "64 word"
type_synonym size_t = "64 word"
type_synonym off_t = "64 word"
type_synonym mem = "nat \<Rightarrow> byte"

definition memcpy :: "mem \<Rightarrow> nat \<Rightarrow> mem \<Rightarrow> nat \<Rightarrow> nat \<Rightarrow> mem" where
  "memcpy dst d src s len = (\<lambda>k. if d \<le> k \<and> k < d + len then src (s + (k - d)) else dst k)"

definition memset :: "mem \<Rightarrow> nat \<Rightarrow> byte \<Rightarrow> nat \<Rightarrow> mem" where
  "memset dst d c len = (\<lambda>k. if d \<le> k \<and> k < d + len then c else dst k)"

definition zero_page :: mem where
  "zero_page = (\<lambda>_. 0)"

section \<open>iov_iter.c: the scatter/gather cursor\<close>

text \<open>
  \<open>struct iov_iter\<close>. The \<open>type\<close> field selects the backing layout. The pointer
  \<open>i->iov\<close> / \<open>i->kvec\<close> / \<open>i->bvec\<close> points into a segment array and is moved forward
  by the iterator; it is modelled by the list of segments from the pointer on, so that
  reading the segment under the pointer when the list is empty is an access outside the
  array. Such an access is undefined in C; the model returns \<open>None\<close> for it.

  A segment carries its length (\<open>iov_len\<close>, \<open>bv_len\<close>) and the memory at its base
  (\<open>iov_base\<close>, or \<open>page_address(bv_page) + bv_offset\<close>).
\<close>

datatype iter_type = ITER_IOVEC | ITER_KVEC | ITER_BVEC | ITER_PIPE | ITER_DISCARD

record segment =
  seg_len :: size_t
  seg_base :: mem

record iov_iter =
  itype :: iter_type
  iov_offset :: size_t
  count :: size_t
  segs :: "segment list"
  nr_segs :: size_t

text \<open>
  The chunk descriptor \<open>__v\<close> handed to a STEP expression: the memory of the segment,
  the offset of the chunk in it, and the chunk's length.
\<close>

type_synonym chunk = "mem \<times> nat \<times> size_t"

text \<open>
  \<open>iterate_kvec\<close>. The first chunk is the rest of the segment under the pointer; the
  \<open>while (n)\<close> loop moves the pointer on before it reads the next segment. The macro
  leaves \<open>n = wanted\<close>; the result is the pointer, \<open>skip\<close> and what the STEPs computed.
\<close>

fun iterate_kvec_loop ::
  "(chunk \<Rightarrow> 'a \<Rightarrow> 'a) \<Rightarrow> segment list \<Rightarrow> size_t \<Rightarrow> size_t \<Rightarrow> 'a
     \<Rightarrow> (segment list \<times> size_t \<times> 'a) option" where
  "iterate_kvec_loop STEP [] n skip acc = (if n = 0 then Some ([], skip, acc) else None)"
| "iterate_kvec_loop STEP (s0 # p) n skip acc =
     (if n = 0 then Some (s0 # p, skip, acc)
      else case p of
        [] \<Rightarrow> None
      | s # p' \<Rightarrow>
          (let len = min n (seg_len s) in
           if len = 0 then iterate_kvec_loop STEP p n skip acc
           else iterate_kvec_loop STEP p (n - len) len (STEP (seg_base s, 0, len) acc)))"

definition iterate_kvec ::
  "(chunk \<Rightarrow> 'a \<Rightarrow> 'a) \<Rightarrow> segment list \<Rightarrow> size_t \<Rightarrow> size_t \<Rightarrow> 'a
     \<Rightarrow> (segment list \<times> size_t \<times> 'a) option" where
  "iterate_kvec STEP p n skip acc =
     (case p of
        [] \<Rightarrow> None
      | s # _ \<Rightarrow>
          (let len = min n (seg_len s - skip) in
           if len \<noteq> 0
           then iterate_kvec_loop STEP p (n - len) (skip + len)
                  (STEP (seg_base s, unat skip, len) acc)
           else iterate_kvec_loop STEP p n skip acc))"

text \<open>
  \<open>iterate_iovec\<close>. A STEP on user memory returns \<open>left\<close>, the number of bytes it did
  not process; the chunk is shortened by it and a non-zero \<open>left\<close> ends the walk. The
  macro leaves \<open>n = wanted - n\<close>, the bytes processed; the model returns the bytes still
  unprocessed and the caller subtracts.
\<close>

fun iterate_iovec_loop ::
  "(chunk \<Rightarrow> 'a \<Rightarrow> 'a \<times> size_t) \<Rightarrow> segment list \<Rightarrow> size_t \<Rightarrow> size_t \<Rightarrow> size_t \<Rightarrow> 'a
     \<Rightarrow> (segment list \<times> size_t \<times> size_t \<times> 'a) option" where
  "iterate_iovec_loop STEP [] left n skip acc =
     (if left = 0 \<and> n \<noteq> 0 then None else Some ([], skip, n, acc))"
| "iterate_iovec_loop STEP (s0 # p) left n skip acc =
     (if left = 0 \<and> n \<noteq> 0
      then case p of
        [] \<Rightarrow> None
      | s # p' \<Rightarrow>
          (let len = min n (seg_len s) in
           if len = 0 then iterate_iovec_loop STEP p left n skip acc
           else (case STEP (seg_base s, 0, len) acc of
                   (acc', left') \<Rightarrow>
                     iterate_iovec_loop STEP p left' (n - (len - left')) (len - left') acc'))
      else Some (s0 # p, skip, n, acc))"

definition iterate_iovec ::
  "(chunk \<Rightarrow> 'a \<Rightarrow> 'a \<times> size_t) \<Rightarrow> segment list \<Rightarrow> size_t \<Rightarrow> size_t \<Rightarrow> 'a
     \<Rightarrow> (segment list \<times> size_t \<times> size_t \<times> 'a) option" where
  "iterate_iovec STEP p n skip acc =
     (case p of
        [] \<Rightarrow> None
      | s # _ \<Rightarrow>
          (let len = min n (seg_len s - skip) in
           if len \<noteq> 0
           then (case STEP (seg_base s, unat skip, len) acc of
                   (acc', left) \<Rightarrow>
                     iterate_iovec_loop STEP p left (n - (len - left)) (skip + (len - left)) acc')
           else iterate_iovec_loop STEP p 0 n skip acc))"

text \<open>
  \<open>iterate_bvec\<close> runs \<open>for_each_bvec\<close> from \<open>bvec.h\<close>, which is not among the sources.
  Modelled from the spec: a page-vector cursor walks its \<open>(page, offset, len)\<close> entries
  in order; the walk starts \<open>bi_bvec_done = skip\<close> bytes into the entry at index 0 and
  stops when \<open>bi_size = n\<close> bytes are consumed; an entry that is used up moves
  \<open>bi_idx\<close> on and resets \<open>bi_bvec_done\<close>. The modelled chunk is the unconsumed part of
  one entry; a further split of a chunk at page boundaries would visit the same bytes in
  the same order. The result is the entry array from \<open>bi_idx\<close> on and \<open>bi_bvec_done\<close>.
\<close>

fun iterate_bvec ::
  "(chunk \<Rightarrow> 'a \<Rightarrow> 'a) \<Rightarrow> segment list \<Rightarrow> size_t \<Rightarrow> size_t \<Rightarrow> 'a
     \<Rightarrow> (segment list \<times> size_t \<times> 'a) option" where
  "iterate_bvec STEP [] n skip acc = (if n = 0 then Some ([], skip, acc) else None)"
| "iterate_bvec STEP (s # p) n skip acc =
     (if n = 0 then Some (s # p, skip, acc)
      else
        (let len = min n (seg_len s - skip) in
         if len = seg_len s - skip
         then iterate_bvec STEP p (n - len) 0
                (if len = 0 then acc else STEP (seg_base s, unat skip, len) acc)
         else Some (s # p, skip + len, STEP (seg_base s, unat skip, len) acc)))"

text \<open>
  \<open>iterate_and_advance(i, n, v, I, B, K)\<close>: clamp \<open>n\<close> to \<open>i->count\<close>, walk, store the
  moved pointer, \<open>nr_segs\<close>, \<open>count\<close> and \<open>iov_offset\<close>. The branch order is the
  macro's: BVEC, KVEC, DISCARD, and everything else is walked as user segments. The
  result carries the final value of \<open>n\<close>.
\<close>

definition ptr_diff :: "segment list \<Rightarrow> segment list \<Rightarrow> size_t" where
  "ptr_diff p_new p_old = of_nat (length p_old - length p_new)"

definition iterate_and_advance ::
  "iov_iter \<Rightarrow> size_t \<Rightarrow> (chunk \<Rightarrow> 'a \<Rightarrow> 'a \<times> size_t) \<Rightarrow> (chunk \<Rightarrow> 'a \<Rightarrow> 'a)
     \<Rightarrow> (chunk \<Rightarrow> 'a \<Rightarrow> 'a) \<Rightarrow> 'a \<Rightarrow> (iov_iter \<times> size_t \<times> 'a) option" where
  "iterate_and_advance i n0 I B K acc =
     (let n = (if count i < n0 then count i else n0) in
      if count i \<noteq> 0 then
        (let skip = iov_offset i in
         case itype i of
           ITER_BVEC \<Rightarrow>
             (case iterate_bvec B (segs i) n skip acc of
                None \<Rightarrow> None
              | Some (bvec, skip', acc') \<Rightarrow>
                  Some (i\<lparr>segs := bvec, nr_segs := nr_segs i - ptr_diff bvec (segs i),
                          count := count i - n, iov_offset := skip'\<rparr>, n, acc'))
         | ITER_KVEC \<Rightarrow>
             (case iterate_kvec K (segs i) n skip acc of
                None \<Rightarrow> None
              | Some (kvec, skip', acc') \<Rightarrow>
                  (case kvec of
                     [] \<Rightarrow> None
                   | s # kvec' \<Rightarrow>
                       (let kvec2 = (if skip' = seg_len s then kvec' else kvec);
                            skip2 = (if skip' = seg_len s then 0 else skip')
                        in Some (i\<lparr>segs := kvec2, nr_segs := nr_segs i - ptr_diff kvec2 (segs i),
                                   count := count i - n, iov_offset := skip2\<rparr>, n, acc'))))
         | ITER_DISCARD \<Rightarrow>
             Some (i\<lparr>count := count i - n, iov_offset := skip + n\<rparr>, n, acc)
         | _ \<Rightarrow>
             (case iterate_iovec I (segs i) n skip acc of
                None \<Rightarrow> None
              | Some (iov, skip', n_left, acc') \<Rightarrow>
                  (case iov of
                     [] \<Rightarrow> None
                   | s # iov' \<Rightarrow>
                       (let n' = n - n_left;
                            iov2 = (if skip' = seg_len s then iov' else iov);
                            skip2 = (if skip' = seg_len s then 0 else skip')
                        in Some (i\<lparr>segs := iov2, nr_segs := nr_segs i - ptr_diff iov2 (segs i),
                                   count := count i - n', iov_offset := skip2\<rparr>, n', acc')))))
      else Some (i, n, acc))"

text \<open>
  \<open>iov_iter_kvec\<close> and \<open>iov_iter_bvec\<close>; the direction bits of \<open>type\<close> take no part
  in any walk and are left out of the model.
\<close>

definition iov_iter_kvec :: "segment list \<Rightarrow> size_t \<Rightarrow> size_t \<Rightarrow> iov_iter" where
  "iov_iter_kvec kvec n_segs cnt =
     \<lparr>itype = ITER_KVEC, iov_offset = 0, count = cnt, segs = kvec, nr_segs = n_segs\<rparr>"

definition iov_iter_bvec :: "segment list \<Rightarrow> size_t \<Rightarrow> size_t \<Rightarrow> iov_iter" where
  "iov_iter_bvec bvec n_segs cnt =
     \<lparr>itype = ITER_BVEC, iov_offset = 0, count = cnt, segs = bvec, nr_segs = n_segs\<rparr>"

text \<open>
  \<open>iov_iter_advance\<close>. A pipe cursor hits \<open>BUG()\<close>, which does not return. A discard
  cursor subtracts \<open>size\<close> from \<open>count\<close> without the clamp of \<open>iterate_and_advance\<close>.
\<close>

definition iov_iter_advance :: "iov_iter \<Rightarrow> size_t \<Rightarrow> iov_iter option" where
  "iov_iter_advance i sz =
     (if itype i = ITER_PIPE then None
      else if itype i = ITER_DISCARD then Some (i\<lparr>count := count i - sz\<rparr>)
      else map_option fst
             (iterate_and_advance i sz (\<lambda>v a. (a, 0)) (\<lambda>v a. a) (\<lambda>v a. a) ()))"

text \<open>
  \<open>copyin\<close> calls \<open>access_ok\<close> and \<open>raw_copy_from_user\<close>, which are not among the sources;
  they are parameters of the model. \<open>raw_copy_from_user\<close> returns the number of bytes it
  could not copy, having copied the bytes before them.

  \<open>copyin\<close> is declared \<open>static int\<close>: it returns its \<open>size_t n\<close> as an \<open>int\<close>, and
  \<open>iterate_iovec\<close> assigns that to the \<open>size_t left\<close>. \<open>int_to_size_t\<close> is the two
  conversions: the low 32 bits, sign-extended to 64.
\<close>

definition int_to_size_t :: "size_t \<Rightarrow> size_t" where
  "int_to_size_t n = scast (ucast n :: 32 word)"

record uaccess =
  access_ok :: "chunk \<Rightarrow> bool"
  raw_copy_from_user :: "chunk \<Rightarrow> size_t"

definition copyin :: "uaccess \<Rightarrow> chunk \<Rightarrow> mem \<times> nat \<Rightarrow> (mem \<times> nat) \<times> size_t" where
  "copyin U v acc =
     (case v of (src, s, len) \<Rightarrow>
      case acc of (dst, to) \<Rightarrow>
        if access_ok U v
        then (let n = raw_copy_from_user U v
              in ((memcpy dst to src s (unat (len - n)), to + unat len), int_to_size_t n))
        else ((dst, to + unat len), int_to_size_t len))"

definition copy_chunk :: "chunk \<Rightarrow> mem \<times> nat \<Rightarrow> mem \<times> nat" where
  "copy_chunk v acc =
     (case v of (src, s, len) \<Rightarrow>
      case acc of (dst, to) \<Rightarrow> (memcpy dst to src s (unat len), to + unat len))"

text \<open>
  \<open>_copy_from_iter(addr, bytes, i)\<close>: the destination is the memory region \<open>dst\<close> from
  index \<open>to\<close> on. Returns the destination, the cursor and the final \<open>bytes\<close>. On a pipe
  cursor it warns and returns 0 with nothing changed.
\<close>

definition copy_from_iter_raw ::
  "uaccess \<Rightarrow> mem \<Rightarrow> nat \<Rightarrow> size_t \<Rightarrow> iov_iter \<Rightarrow> (mem \<times> iov_iter \<times> size_t) option" where
  "copy_from_iter_raw U dst to bytes i =
     (if itype i = ITER_PIPE then Some (dst, i, 0)
      else case iterate_and_advance i bytes (copyin U) copy_chunk copy_chunk (dst, to) of
             None \<Rightarrow> None
           | Some (i', n, (dst', _)) \<Rightarrow> Some (dst', i', n))"

text \<open>
  \<open>iov_iter_count\<close> and \<open>copy_from_iter\<close> are inline wrappers from \<open>uio.h\<close>, which is
  not among the sources; they read \<open>i->count\<close> and call \<open>_copy_from_iter\<close>.
\<close>

definition iov_iter_count :: "iov_iter \<Rightarrow> size_t" where
  "iov_iter_count i = count i"

definition copy_from_iter ::
  "uaccess \<Rightarrow> mem \<Rightarrow> nat \<Rightarrow> size_t \<Rightarrow> iov_iter \<Rightarrow> (mem \<times> iov_iter \<times> size_t) option" where
  "copy_from_iter U dst to bytes i = copy_from_iter_raw U dst to bytes i"

text \<open>
  A cursor is well formed when its segment array holds the bytes its \<open>count\<close>
  promises: the walk of a well-formed cursor never leaves the array.
\<close>

definition segs_bytes :: "segment list \<Rightarrow> nat" where
  "segs_bytes p = sum_list (map (\<lambda>s. unat (seg_len s)) p)"

definition walk_wf :: "segment list \<Rightarrow> size_t \<Rightarrow> size_t \<Rightarrow> bool" where
  "walk_wf p skip cnt =
     (unat cnt + unat skip \<le> segs_bytes p \<and>
      (case p of [] \<Rightarrow> skip = 0 | s # _ \<Rightarrow> skip \<le> seg_len s))"

definition iter_wf :: "iov_iter \<Rightarrow> bool" where
  "iter_wf i =
     (itype i = ITER_DISCARD \<or>
      (itype i \<noteq> ITER_PIPE \<and> walk_wf (segs i) (iov_offset i) (count i)))"

section \<open>osd_server.c: the object store\<close>

text \<open>
  \<open>OSDS_BLOCK_SHIFT\<close>, \<open>OSDS_BLOCK_SIZE\<close>, \<open>OSDS_BLOCK_MASK\<close>. The mask is used on
  \<open>off_t\<close> and \<open>size_t\<close> operands, where it is the 64-bit complement of 65535.
  \<open>ALIGN_DOWN\<close> is the kernel's macro for a power-of-two alignment.
\<close>

definition OSDS_BLOCK_SHIFT :: nat where
  "OSDS_BLOCK_SHIFT = 16"

definition OSDS_BLOCK_SIZE :: "64 word" where
  "OSDS_BLOCK_SIZE = push_bit OSDS_BLOCK_SHIFT 1"

definition OSDS_BLOCK_MASK :: "64 word" where
  "OSDS_BLOCK_MASK = NOT (OSDS_BLOCK_SIZE - 1)"

definition ALIGN_DOWN :: "64 word \<Rightarrow> 64 word \<Rightarrow> 64 word" where
  "ALIGN_DOWN x a = x AND NOT (a - 1)"

text \<open>The errno values and the op flag the handlers use (Linux \<open>errno.h\<close>, \<open>rados.h\<close>).\<close>

definition ENOENT :: int where "ENOENT = 2"
definition EAGAIN :: int where "EAGAIN = 11"
definition ENOMEM :: int where "ENOMEM = 12"
definition EINVAL :: int where "EINVAL = 22"
definition EOPNOTSUPP :: int where "EOPNOTSUPP = 95"
definition EINPROGRESS :: int where "EINPROGRESS = 115"

definition CEPH_OSD_OP_FLAG_FAILOK :: u32 where
  "CEPH_OSD_OP_FLAG_FAILOK = 2"

text \<open>
  The opcodes \<open>osd_req_decode_op\<close> and \<open>osd_req_encode_op\<close> know by name; every other
  16-bit value, 0 included, is \<open>CEPH_OSD_OP_OTHER\<close>.
\<close>

datatype osd_opcode =
    CEPH_OSD_OP_STAT | CEPH_OSD_OP_READ | CEPH_OSD_OP_WRITE | CEPH_OSD_OP_WRITEFULL
  | CEPH_OSD_OP_ZERO | CEPH_OSD_OP_TRUNCATE | CEPH_OSD_OP_CALL | CEPH_OSD_OP_WATCH
  | CEPH_OSD_OP_NOTIFY_ACK | CEPH_OSD_OP_NOTIFY | CEPH_OSD_OP_LIST_WATCHERS
  | CEPH_OSD_OP_SETALLOCHINT | CEPH_OSD_OP_SETXATTR | CEPH_OSD_OP_CMPXATTR
  | CEPH_OSD_OP_CREATE | CEPH_OSD_OP_DELETE | CEPH_OSD_OP_COPY_FROM2
  | CEPH_OSD_OP_OTHER u16

record timespec64 =
  tv_sec :: "64 word"
  tv_nsec :: "64 word"

text \<open>
  \<open>struct ceph_hobject_id\<close> with the members the decoder fills. The object table is
  keyed by it; \<open>ceph_hoid_compare\<close> is not among the sources and is taken to tell two
  identities apart exactly when they differ.
\<close>

record ceph_hobject_id =
  hoid_pool :: "64 word"
  hoid_nspace :: "byte list"
  hoid_hash :: u32
  hoid_name :: "byte list"
  hoid_key :: "byte list option"
  hoid_snapid :: u64

text \<open>
  \<open>struct ceph_osds_block\<close> and \<open>struct ceph_osds_object\<close>. The red-black tree
  \<open>o_blocks\<close>, ordered by the signed comparison of \<open>b_off\<close>, is modelled by the list of
  its blocks in key order: \<open>rb_next\<close> is the next element of the list. The tree
  \<open>s_objects\<close> is a map from the identity.
\<close>

record ceph_osds_block =
  b_off :: off_t
  b_page :: mem

record ceph_osds_object =
  o_hoid :: ceph_hobject_id
  o_blocks :: "ceph_osds_block list"
  o_size :: size_t
  o_mtime :: timespec64

text \<open>
  \<open>struct ceph_osd_req_op\<close>, with the members the handlers and the reply read or
  write; \<open>extent\<close> is the member of the union that READ and WRITE use. \<open>outdata\<close>
  points to the page of the reply data, of which \<open>outdata_len\<close> bytes are sent.
\<close>

record ceph_osd_req_op =
  opcode :: osd_opcode
  flags :: u32
  indata_len :: u32
  outdata_len :: u32
  rval :: int
  extent_offset :: u64
  extent_length :: u64
  outdata :: "mem option"

text \<open>\<open>struct ceph_msg_osd_op\<close>: the decoded request. \<open>ops\<close> is the array of
  \<open>CEPH_OSD_MAX_OPS\<close> entries.\<close>

record ceph_pg =
  pg_pool :: u64
  pg_seed :: u32

record ceph_msg_osd_op =
  tid :: u64
  features :: u64
  epoch :: u32
  spgid_pgid :: ceph_pg
  spgid_shard :: "8 word"
  req_flags :: u32
  attempts :: u32
  mtime :: timespec64
  num_ops :: u32
  ops :: "ceph_osd_req_op list"
  oloc_pool_ns :: "byte list"
  hoid :: ceph_hobject_id
  num_snaps :: u32
  snap_seq :: u64
  snaps :: "u64 list"

definition CEPH_OSD_MAX_OPS :: nat where
  "CEPH_OSD_MAX_OPS = 16"

text \<open>
  The server: the object table, the \<open>NOOP_WRITE\<close> option of the messenger, the osdmap
  epoch, the user-memory primitives, and the allocator. \<open>kmalloc\<close> and \<open>alloc_pages\<close> may fail and hand out memory
  that is not initialised: \<open>alloc_plan\<close> lists the outcome of the coming allocation
  requests in order (once it is used up every request succeeds), \<open>stale_mtime\<close> is what
  a fresh \<open>kmalloc\<close>ed object holds in \<open>o_mtime\<close>, \<open>stale_req\<close> is what the stack
  holds where \<open>handle_osd_ops\<close> has its \<open>req\<close>, \<open>ram\<close> is the byte-addressed
  memory that pages without \<open>__GFP_ZERO\<close> are handed out from, and \<open>next_page\<close> is the
  address of the page the next such request gets.
\<close>

record ceph_osd_server =
  s_objects :: "ceph_hobject_id \<rightharpoonup> ceph_osds_object"
  opt_noop_write :: bool
  osdmap_epoch :: u32
  uacc :: uaccess
  alloc_plan :: "bool list"
  stale_mtime :: timespec64
  stale_req :: ceph_msg_osd_op
  ram :: "u64 \<Rightarrow> byte"
  next_page :: u64

definition alloc :: "ceph_osd_server \<Rightarrow> bool \<times> ceph_osd_server" where
  "alloc st =
     (case alloc_plan st of
        [] \<Rightarrow> (True, st)
      | ok # rest \<Rightarrow> (ok, st\<lparr>alloc_plan := rest\<rparr>))"

text \<open>
  \<open>lookup_object_block_by_off\<close> and \<open>insert_object_block_by_off\<close>, generated by
  \<open>DEFINE_RB_FUNCS\<close>: exact lookup by key, and insertion at the place the signed order
  gives (the caller inserts only a key that is not there).
\<close>

fun lookup_object_block_by_off :: "ceph_osds_block list \<Rightarrow> off_t \<Rightarrow> ceph_osds_block option" where
  "lookup_object_block_by_off [] k = None"
| "lookup_object_block_by_off (b # bs) k =
     (if b_off b = k then Some b else lookup_object_block_by_off bs k)"

fun insert_object_block_by_off :: "ceph_osds_block list \<Rightarrow> ceph_osds_block \<Rightarrow> ceph_osds_block list" where
  "insert_object_block_by_off [] blk = [blk]"
| "insert_object_block_by_off (b # bs) blk =
     (if sint (b_off blk) < sint (b_off b) then blk # b # bs
      else b # insert_object_block_by_off bs blk)"

text \<open>Writing through \<open>blk->b_page\<close>: the block with that key gets the new page content.\<close>

fun store_block_page :: "ceph_osds_block list \<Rightarrow> off_t \<Rightarrow> mem \<Rightarrow> ceph_osds_block list" where
  "store_block_page [] k pg = []"
| "store_block_page (b # bs) k pg =
     (if b_off b = k then b\<lparr>b_page := pg\<rparr> # bs else b # store_block_page bs k pg)"

text \<open>
  \<open>next_dst\<close>: find the block of \<open>dst_off\<close> or allocate it, zeroed, and insert it.
  Returns the code, the allocator, the object, \<open>*pblk\<close> (as the key of the block) and
  \<open>*dst_len\<close>; on \<open>-ENOMEM\<close> the two outputs keep the values they had.
\<close>

definition next_dst ::
  "ceph_osd_server \<Rightarrow> ceph_osds_object \<Rightarrow> off_t option \<Rightarrow> off_t \<Rightarrow> size_t
     \<Rightarrow> int \<times> ceph_osd_server \<times> ceph_osds_object \<times> off_t option \<times> size_t" where
  "next_dst st obj pblk dst_off dst_len =
     (let blk_off = ALIGN_DOWN dst_off OSDS_BLOCK_SIZE;
          dst_len' = OSDS_BLOCK_SIZE - (dst_off AND NOT OSDS_BLOCK_MASK)
      in case lookup_object_block_by_off (o_blocks obj) blk_off of
           Some blk \<Rightarrow> (0, st, obj, Some blk_off, dst_len')
         | None \<Rightarrow>
             (case alloc st of
                (False, st1) \<Rightarrow> (- ENOMEM, st1, obj, pblk, dst_len)
              | (True, st1) \<Rightarrow>
                  (case alloc st1 of
                     (False, st2) \<Rightarrow> (- ENOMEM, st2, obj, pblk, dst_len)
                   | (True, st2) \<Rightarrow>
                       (0, st2,
                        obj\<lparr>o_blocks := insert_object_block_by_off (o_blocks obj)
                                            \<lparr>b_off = blk_off, b_page = zero_page\<rparr>\<rparr>,
                        Some blk_off, dst_len'))))"

text \<open>
  \<open>struct ceph_msg_data_cursor\<close> and its three functions live in the messenger, which
  is not among the sources. Modelled from the spec: the input cursor spans the inbound
  message's data segment, which the session allocates as a single page vector; it is
  shared by all ops of the request and advanced as they consume bytes. With a single
  data item there is no further segment for \<open>ceph_msg_data_cursor_next\<close> to move to,
  and \<open>ceph_msg_data_cursor_advance\<close> accounts for bytes that the copy has already
  taken from the cursor's \<open>iov_iter\<close>.
\<close>

record ceph_msg_data_cursor =
  total_resid :: size_t
  iter :: iov_iter

definition ceph_msg_data_cursor_init :: "segment list \<Rightarrow> size_t \<Rightarrow> ceph_msg_data_cursor" where
  "ceph_msg_data_cursor_init data len =
     \<lparr>total_resid = len, iter = iov_iter_bvec data (of_nat (length data)) len\<rparr>"

definition ceph_msg_data_cursor_next :: "ceph_msg_data_cursor \<Rightarrow> ceph_msg_data_cursor" where
  "ceph_msg_data_cursor_next cur = cur"

definition ceph_msg_data_cursor_advance :: "ceph_msg_data_cursor \<Rightarrow> size_t \<Rightarrow> ceph_msg_data_cursor" where
  "ceph_msg_data_cursor_advance cur bytes = cur\<lparr>total_resid := total_resid cur - bytes\<rparr>"

subsection \<open>handle_osd_op_write\<close>

text \<open>
  The first part of \<open>handle_osd_op_write\<close>: find the object by \<open>hoid\<close> or create it.
  The created object gets \<open>o_size = 0\<close> and \<open>o_blocks = RB_ROOT\<close>; \<open>o_mtime\<close> is not
  assigned and keeps what \<open>kmalloc\<close> returned.
\<close>

definition find_or_create_object ::
  "ceph_osd_server \<Rightarrow> ceph_msg_osd_op \<Rightarrow> ceph_osds_object option \<times> ceph_osd_server" where
  "find_or_create_object st req =
     (case s_objects st (hoid req) of
        Some obj \<Rightarrow> (Some obj, st)
      | None \<Rightarrow>
          (case alloc st of
             (False, st1) \<Rightarrow> (None, st1)
           | (True, st1) \<Rightarrow>
               (let obj = \<lparr>o_hoid = hoid req, o_blocks = [], o_size = 0,
                           o_mtime = stale_mtime st1\<rparr>
                in (Some obj, st1\<lparr>s_objects := (s_objects st1)(hoid req \<mapsto> obj)\<rparr>))))"

text \<open>
  The variables of the copy loop. \<open>w_blk\<close> is \<open>blk\<close>, as the key of the block it
  points to (\<open>None\<close> for \<open>NULL\<close>); \<open>w_obj\<close> is the object \<open>obj\<close> points to.
\<close>

record write_state =
  w_st :: ceph_osd_server
  w_obj :: ceph_osds_object
  w_blk :: "off_t option"
  w_dst_len :: size_t
  w_dst_off :: off_t
  w_len_write :: size_t
  w_modified :: bool
  w_cur :: ceph_msg_data_cursor

text \<open>
  One pass through the body of \<open>while (len_write)\<close>: \<open>Inr\<close> is the \<open>goto out\<close> with
  the code of \<open>next_dst\<close>, \<open>Inl\<close> the state at the end of the body. Dereferencing a
  \<open>NULL\<close> \<open>blk\<close> or leaving the cursor's segment array gives \<open>None\<close>. The addition to
  \<open>dst_off\<close> wraps.
\<close>

definition write_iter :: "write_state \<Rightarrow> (write_state + int \<times> write_state) option" where
  "write_iter w =
     (case (if w_dst_len w = 0
            then next_dst (w_st w) (w_obj w) (w_blk w) (w_dst_off w) (w_dst_len w)
            else (0, w_st w, w_obj w, w_blk w, w_dst_len w)) of
        (ret, st1, obj1, blk1, dst_len1) \<Rightarrow>
          if ret \<noteq> 0
          then Some (Inr (ret, w\<lparr>w_st := st1, w_obj := obj1, w_blk := blk1, w_dst_len := dst_len1\<rparr>))
          else
            (let cur1 = ceph_msg_data_cursor_next (w_cur w);
                 len = min (min (iov_iter_count (iter cur1)) dst_len1) (w_len_write w)
             in case blk1 of
                  None \<Rightarrow> None
                | Some k \<Rightarrow>
                    (case lookup_object_block_by_off (o_blocks obj1) k of
                       None \<Rightarrow> None
                     | Some blk \<Rightarrow>
                         (case copy_from_iter (uacc st1) (b_page blk)
                                 (unat (w_dst_off w AND NOT OSDS_BLOCK_MASK)) len (iter cur1) of
                            None \<Rightarrow> None
                          | Some (pg, it, len2) \<Rightarrow>
                              Some (Inl (w\<lparr>w_st := st1,
                                           w_obj := obj1\<lparr>o_blocks := store_block_page (o_blocks obj1) k pg\<rparr>,
                                           w_blk := blk1,
                                           w_dst_len := dst_len1 - len,
                                           w_dst_off := w_dst_off w + len,
                                           w_len_write := w_len_write w - len,
                                           w_modified := True,
                                           w_cur := ceph_msg_data_cursor_advance (cur1\<lparr>iter := it\<rparr>) len\<rparr>))))))"

text \<open>
  The loop itself. It has no bound of its own: a pass that copies nothing leaves
  \<open>len_write\<close> as it was. Not returning is the value \<open>None\<close>.
\<close>

partial_function (option) write_loop :: "write_state \<Rightarrow> (int \<times> write_state) option" where
  "write_loop w =
     (if w_len_write w = 0 then Some (0, w)
      else case write_iter w of
             None \<Rightarrow> None
           | Some (Inr r) \<Rightarrow> Some r
           | Some (Inl w') \<Rightarrow> write_loop w')"

declare write_loop.simps [code]

text \<open>
  The label \<open>out\<close>: a modified object gets the request's \<open>mtime\<close>, and \<open>dst_off\<close> as
  its size when that is larger; the comparison of the \<open>off_t\<close> with the \<open>size_t\<close> is
  unsigned.
\<close>

definition write_out :: "ceph_msg_osd_op \<Rightarrow> write_state \<Rightarrow> ceph_osds_object" where
  "write_out req w =
     (if w_modified w
      then (w_obj w)\<lparr>o_mtime := mtime req,
                     o_size := (if o_size (w_obj w) < w_dst_off w then w_dst_off w
                                else o_size (w_obj w))\<rparr>
      else w_obj w)"

definition handle_osd_op_write ::
  "ceph_osd_server \<Rightarrow> ceph_msg_osd_op \<Rightarrow> ceph_osd_req_op \<Rightarrow> ceph_msg_data_cursor
     \<Rightarrow> (int \<times> ceph_osd_server \<times> ceph_msg_data_cursor) option" where
  "handle_osd_op_write st req op in_cur =
     (if extent_length op = 0 then Some (0, st, in_cur)
      else if opt_noop_write st \<and> 4096 \<le> extent_length op then Some (0, st, in_cur)
      else case find_or_create_object st req of
             (None, st1) \<Rightarrow> Some (- ENOMEM, st1, in_cur)
           | (Some obj, st1) \<Rightarrow>
               (case write_loop \<lparr>w_st = st1, w_obj = obj, w_blk = None, w_dst_len = 0,
                                 w_dst_off = extent_offset op, w_len_write = extent_length op,
                                 w_modified = False, w_cur = in_cur\<rparr> of
                  None \<Rightarrow> None
                | Some (ret, w) \<Rightarrow>
                    Some (ret,
                          (w_st w)\<lparr>s_objects := (s_objects (w_st w))(hoid req \<mapsto> write_out req w)\<rparr>,
                          w_cur w)))"

subsection \<open>alloc_bvec and the reply pages\<close>

text \<open>
  \<open>alloc_bvec\<close>: \<open>alloc_pages\<close> without \<open>__GFP_ZERO\<close>, then a \<open>kmalloc\<close> for the
  \<open>bio_vec\<close>. Returns the code, the allocator and the address of the page. The page is
  the memory of \<open>ram\<close> from that address on.
\<close>

definition alloc_bvec :: "ceph_osd_server \<Rightarrow> size_t \<Rightarrow> int \<times> ceph_osd_server \<times> u64" where
  "alloc_bvec st data_len =
     (case alloc st of
        (False, st1) \<Rightarrow> (- ENOMEM, st1, 0)
      | (True, st1) \<Rightarrow>
          (case alloc st1 of
             (False, st2) \<Rightarrow> (- ENOMEM, st2, 0)
           | (True, st2) \<Rightarrow> (0, st2, next_page st2)))"

definition page_address :: "(u64 \<Rightarrow> byte) \<Rightarrow> u64 \<Rightarrow> mem" where
  "page_address m pa = (\<lambda>k. m (pa + of_nat k))"

subsection \<open>handle_osd_op_read\<close>

text \<open>
  \<open>lookup_right_block\<close> descends the tree and returns the block with the key, or else
  the last block it turned left at: in the tree order, the first block whose key is not
  below \<open>off\<close>. The model returns the list from that block on (\<open>[]\<close> for \<open>NULL\<close>), so
  that \<open>rb_next\<close> is its tail.
\<close>

fun lookup_right_block :: "ceph_osds_block list \<Rightarrow> off_t \<Rightarrow> ceph_osds_block list" where
  "lookup_right_block [] off = []"
| "lookup_right_block (b # bs) off =
     (if sint off \<le> sint (b_off b) then b # bs else lookup_right_block bs off)"

text \<open>
  The two steps of the body of \<open>while (blk and len_read)\<close> on the variables
  \<open>(buf, len_read, off_inpg, off)\<close>. \<open>off_inpg\<close> is declared \<open>unsigned\<close>: adding a
  \<open>size_t\<close> to it keeps the low 32 bits.
\<close>

type_synonym read_vars = "mem \<times> size_t \<times> u32 \<times> off_t"

definition read_zero_hole :: "ceph_osds_block \<Rightarrow> read_vars \<Rightarrow> read_vars" where
  "read_zero_hole blk v =
     (case v of (buf, len_read, off_inpg, off) \<Rightarrow>
        if sint off < sint (b_off blk)
        then (let len_zero = min (b_off blk - off) len_read
              in (memset buf (unat off_inpg) 0 (unat len_zero),
                  len_read - len_zero, off_inpg + ucast len_zero, off + len_zero))
        else v)"

definition read_copy_block :: "ceph_osds_block \<Rightarrow> read_vars \<Rightarrow> read_vars" where
  "read_copy_block blk v =
     (case v of (buf, len_read, off_inpg, off) \<Rightarrow>
        if len_read \<noteq> 0
        then (let off_inblk = off AND NOT OSDS_BLOCK_MASK;
                  len_copy = min (OSDS_BLOCK_SIZE - off_inblk) len_read
              in (memcpy buf (unat off_inpg) (b_page blk) (unat off_inblk) (unat len_copy),
                  len_read - len_copy, off_inpg + ucast len_copy, off + len_copy))
        else v)"

text \<open>The loop; \<open>BUG_ON(blk->b_off < blk_off)\<close> does not return.\<close>

fun read_loop :: "ceph_osds_block list \<Rightarrow> off_t \<Rightarrow> read_vars \<Rightarrow> read_vars option" where
  "read_loop [] blk_off v = Some v"
| "read_loop (blk # rest) blk_off v =
     (if fst (snd v) = 0 then Some v
      else if sint (b_off blk) < sint blk_off then None
      else (let v2 = read_copy_block blk (read_zero_hole blk v)
            in if fst (snd v2) \<noteq> 0 then read_loop rest blk_off v2 else Some v2))"

definition handle_osd_op_read ::
  "ceph_osd_server \<Rightarrow> ceph_msg_osd_op \<Rightarrow> ceph_osd_req_op
     \<Rightarrow> (int \<times> ceph_osd_server \<times> ceph_osd_req_op) option" where
  "handle_osd_op_read st req op =
     (case s_objects st (hoid req) of
        None \<Rightarrow> Some (- ENOENT, st, op)
      | Some obj \<Rightarrow>
          if o_size obj \<le> extent_offset op then Some (0, st, op)
          else
            (let len_read = min (extent_length op) (o_size obj - extent_offset op)
             in case alloc_bvec st len_read of
                  (ret, st1, pa) \<Rightarrow>
                    if ret \<noteq> 0 then Some (ret, st1, op)
                    else
                      (let off = extent_offset op;
                           blk_off = ALIGN_DOWN off OSDS_BLOCK_SIZE
                       in case read_loop (lookup_right_block (o_blocks obj) blk_off) blk_off
                                 (page_address (ram st1) pa, len_read, 0, off) of
                            None \<Rightarrow> None
                          | Some (buf, len_read', off_inpg, off') \<Rightarrow>
                              Some (0, st1,
                                    op\<lparr>outdata_len := ucast len_read,
                                       outdata := Some (if len_read' \<noteq> 0
                                                        then memset buf (unat off_inpg) 0 (unat len_read')
                                                        else buf)\<rparr>))))"

subsection \<open>handle_osd_op_stat\<close>

text \<open>
  Little-endian bytes of a word, and a word from little-endian bytes; storing a run of
  bytes at an address and loading a 64-bit pointer from one.
\<close>

definition le_bytes :: "nat \<Rightarrow> 'a::len word \<Rightarrow> byte list" where
  "le_bytes n v = map (\<lambda>k. ucast (drop_bit (8 * k) v)) [0..<n]"

definition le_word :: "byte list \<Rightarrow> 'a::len word" where
  "le_word bs = foldr (\<lambda>b w. push_bit 8 w OR ucast b) bs 0"

definition store_bytes :: "(u64 \<Rightarrow> byte) \<Rightarrow> u64 \<Rightarrow> byte list \<Rightarrow> (u64 \<Rightarrow> byte)" where
  "store_bytes m a bs = (\<lambda>x. if unat (x - a) < length bs then bs ! unat (x - a) else m x)"

definition load_ptr :: "(u64 \<Rightarrow> byte) \<Rightarrow> u64 \<Rightarrow> u64" where
  "load_ptr m a = le_word (map (\<lambda>k. m (a + of_nat k)) [0..<8])"

text \<open>
  \<open>ceph_encode_64(void **p, u64 v)\<close> and \<open>ceph_encode_copy(void **p, const void *s, int
  len)\<close> from \<open>decode.h\<close>: both write at \<open>*p\<close> and move \<open>*p\<close> on. Their first argument
  is the address of the write pointer. \<open>ceph_encode_64\<close> is modelled on memory, with the
  address it is given: it loads the write pointer from there, stores \<open>v\<close> where that
  points, and adds 8 to the pointer in memory. The store is defined when the eight bytes
  it writes are memory the caller owns (\<open>owned\<close>); through any other pointer it is
  undefined in C, and the model returns \<open>None\<close>. \<open>ceph_encode_copy\<close> is only ever given
  the address of a local variable, so it is modelled on the variable's value.
  \<open>ceph_encode_timespec64\<close> keeps the low 32 bits of seconds and nanoseconds.
\<close>

definition ceph_encode_64 ::
  "(u64 \<Rightarrow> byte) \<Rightarrow> (u64 \<Rightarrow> bool) \<Rightarrow> u64 \<Rightarrow> u64 \<Rightarrow> (u64 \<Rightarrow> byte) option" where
  "ceph_encode_64 m owned pp v =
     (let q = load_ptr m pp
      in if list_all (\<lambda>k. owned (q + of_nat k)) [0..<8]
         then (let m1 = store_bytes m q (le_bytes 8 v)
               in Some (store_bytes m1 pp (le_bytes 8 (load_ptr m1 pp + 8))))
         else None)"

definition ceph_encode_copy :: "(u64 \<Rightarrow> byte) \<Rightarrow> u64 \<Rightarrow> byte list \<Rightarrow> (u64 \<Rightarrow> byte) \<times> u64" where
  "ceph_encode_copy m p bs = (store_bytes m p bs, p + of_nat (length bs))"

definition ceph_encode_timespec64 :: "timespec64 \<Rightarrow> byte list" where
  "ceph_encode_timespec64 t =
     le_bytes 4 (ucast (tv_sec t) :: u32) @ le_bytes 4 (ucast (tv_nsec t) :: u32)"

text \<open>
  The reply page of STAT is one page (\<open>get_order(16) = 0\<close>) of \<open>PAGE_SIZE\<close> bytes, 4096
  in the kernel headers this code is built with. \<open>in_page pa a\<close>: the address \<open>a\<close> lies
  in the page at \<open>pa\<close>.
\<close>

definition PAGE_SIZE :: nat where
  "PAGE_SIZE = 4096"

definition in_page :: "u64 \<Rightarrow> u64 \<Rightarrow> bool" where
  "in_page pa a = (unat (a - pa) < PAGE_SIZE)"

text \<open>
  \<open>handle_osd_op_stat\<close>. The call is \<open>ceph_encode_64(p, obj->o_size)\<close> with \<open>p\<close> the
  address of the fresh reply page, where every other call in the file passes \<open>&p\<close>: the
  page's first eight bytes, which \<open>alloc_pages\<close> did not initialise, are taken for the
  write pointer. The only memory this op owns is the reply page, so the store of the
  size is defined when that word happens to point into the page and undefined (\<open>None\<close>)
  otherwise. \<open>ceph_encode_copy(&p, &ts, sizeof(ts))\<close> then writes the timestamp at \<open>p\<close>,
  still the start of the page.
\<close>

definition handle_osd_op_stat ::
  "ceph_osd_server \<Rightarrow> ceph_msg_osd_op \<Rightarrow> ceph_osd_req_op
     \<Rightarrow> (int \<times> ceph_osd_server \<times> ceph_osd_req_op) option" where
  "handle_osd_op_stat st req op =
     (case s_objects st (hoid req) of
        None \<Rightarrow> Some (- ENOENT, st, op)
      | Some obj \<Rightarrow>
          (let outdata_len' = 8 + 8
           in case alloc_bvec st outdata_len' of
                (ret, st1, pa) \<Rightarrow>
                  if ret \<noteq> 0 then Some (ret, st1, op)
                  else
                    (let p = pa;
                         ts = ceph_encode_timespec64 (o_mtime obj)
                     in case ceph_encode_64 (ram st1) (in_page pa) p (o_size obj) of
                          None \<Rightarrow> None
                        | Some m1 \<Rightarrow>
                            (let m2 = fst (ceph_encode_copy m1 p ts)
                             in Some (0, st1\<lparr>ram := m2\<rparr>,
                                      op\<lparr>outdata_len := ucast outdata_len',
                                         outdata := Some (page_address m2 pa)\<rparr>)))))"

subsection \<open>handle_osd_op and the loop of handle_osd_ops\<close>

definition handle_osd_op ::
  "ceph_osd_server \<Rightarrow> ceph_msg_osd_op \<Rightarrow> ceph_osd_req_op \<Rightarrow> ceph_msg_data_cursor
     \<Rightarrow> (int \<times> ceph_osd_server \<times> ceph_osd_req_op \<times> ceph_msg_data_cursor) option" where
  "handle_osd_op st req op in_cur =
     (case (case opcode op of
              CEPH_OSD_OP_WRITE \<Rightarrow>
                (case handle_osd_op_write st req op in_cur of
                   None \<Rightarrow> None
                 | Some (ret, st', cur') \<Rightarrow> Some (ret, st', op, cur'))
            | CEPH_OSD_OP_READ \<Rightarrow>
                (case handle_osd_op_read st req op of
                   None \<Rightarrow> None
                 | Some (ret, st', op') \<Rightarrow> Some (ret, st', op', in_cur))
            | CEPH_OSD_OP_STAT \<Rightarrow>
                (case handle_osd_op_stat st req op of
                   None \<Rightarrow> None
                 | Some (ret, st', op') \<Rightarrow> Some (ret, st', op', in_cur))
            | _ \<Rightarrow> Some (- EOPNOTSUPP, st, op, in_cur)) of
        None \<Rightarrow> None
      | Some (ret, st', op', cur') \<Rightarrow> Some (ret, st', op'\<lparr>rval := ret\<rparr>, cur'))"

text \<open>
  The \<open>for\<close> loop of \<open>handle_osd_ops\<close>, from index \<open>i\<close> on, with the value \<open>ret\<close> has
  on entry. An index outside the array \<open>req.ops\<close> is an access that C leaves undefined.
\<close>

function osd_ops_loop ::
  "ceph_osd_server \<Rightarrow> ceph_msg_osd_op \<Rightarrow> ceph_msg_data_cursor \<Rightarrow> int \<Rightarrow> nat
     \<Rightarrow> (int \<times> ceph_osd_server \<times> ceph_msg_osd_op \<times> ceph_msg_data_cursor) option" where
  "osd_ops_loop st req in_cur ret i =
     (if i < unat (num_ops req)
      then if length (ops req) \<le> i then None
           else (case handle_osd_op st req (ops req ! i) in_cur of
                   None \<Rightarrow> None
                 | Some (ret1, st1, op1, cur1) \<Rightarrow>
                     (let req1 = req\<lparr>ops := (ops req)[i := op1]\<rparr>;
                          ret2 = (if ret1 \<noteq> 0 \<and> flags op1 AND CEPH_OSD_OP_FLAG_FAILOK \<noteq> 0 \<and>
                                     ret1 \<noteq> - EAGAIN \<and> ret1 \<noteq> - EINPROGRESS
                                  then 0 else ret1)
                      in if ret2 \<noteq> 0 then Some (ret2, st1, req1, cur1)
                         else osd_ops_loop st1 req1 cur1 ret2 (i + 1)))
      else Some (ret, st, req, in_cur))"
  by pat_completeness auto
termination
  by (relation "measure (\<lambda>(st, req, in_cur, ret, i). unat (num_ops req) - i)") auto

declare osd_ops_loop.simps [simp del]

subsection \<open>The request decoder\<close>

text \<open>
  A framed message as the session hands it over: the header's type and tid, the front
  bytes from \<open>front.iov_base\<close> to its end, and the data item with the bytes it claims.
\<close>

record ceph_msg =
  hdr_type :: u16
  hdr_tid :: u64
  front :: "byte list"
  num_data_items :: nat
  data :: "segment list"
  data_length :: size_t

text \<open>
  The decoding helpers of \<open>decode.h\<close>, \<open>osdmap.c\<close> and \<open>osd_client.c\<close> are not among
  the sources; the ones with a layout of their own are parameters of the model. Each
  takes the bytes from \<open>*p\<close> to \<open>end\<close> and returns its code with the bytes left.
  \<open>raw_osd_op\<close> reads the members of one \<open>struct ceph_osd_op\<close> that the model keeps.
\<close>

record wire =
  ceph_start_decoding :: "nat \<Rightarrow> byte list \<Rightarrow> int \<times> byte list \<times> u32"
  ceph_decode_pgid :: "byte list \<Rightarrow> int \<times> byte list \<times> ceph_pg"
  ceph_oloc_decode :: "byte list \<Rightarrow> int \<times> byte list \<times> byte list"
  ceph_oid_aprintf :: "byte list \<Rightarrow> int"
  sizeof_osd_reqid :: nat
  sizeof_blkin_trace_info :: nat
  sizeof_osd_op :: nat
  raw_osd_op :: "byte list \<Rightarrow> osd_opcode \<times> u32 \<times> u32 \<times> u64 \<times> u64"

text \<open>
  The \<open>_safe\<close> decoders: \<open>None\<close> is the jump to the label they are given when fewer
  than \<open>n\<close> bytes are left.
\<close>

definition decode_le :: "nat \<Rightarrow> byte list \<Rightarrow> ('a::len word \<times> byte list) option" where
  "decode_le n p = (if length p < n then None else Some (le_word (take n p), drop n p))"

definition decode_skip_n :: "nat \<Rightarrow> byte list \<Rightarrow> byte list option" where
  "decode_skip_n n p = (if length p < n then None else Some (drop n p))"

definition zero_op :: ceph_osd_req_op where
  "zero_op = \<lparr>opcode = CEPH_OSD_OP_OTHER 0, flags = 0, indata_len = 0, outdata_len = 0,
              rval = 0, extent_offset = 0, extent_length = 0, outdata = None\<rparr>"

definition empty_hoid :: ceph_hobject_id where
  "empty_hoid = \<lparr>hoid_pool = 0, hoid_nspace = [], hoid_hash = 0, hoid_name = [],
                 hoid_key = None, hoid_snapid = 0\<rparr>"

text \<open>\<open>init_msg_osd_op\<close>: the locator and the identity are reset, the whole \<open>ops\<close>
  array is zeroed, \<open>snaps\<close> is \<open>NULL\<close>. No other member is touched.\<close>

definition init_msg_osd_op :: "ceph_msg_osd_op \<Rightarrow> ceph_msg_osd_op" where
  "init_msg_osd_op req =
     req\<lparr>oloc_pool_ns := [], hoid := empty_hoid,
         ops := replicate CEPH_OSD_MAX_OPS zero_op, snaps := []\<rparr>"

text \<open>\<open>deinit_msg_osd_op\<close> frees what the three members point to; the members of the
  model keep their values.\<close>

definition deinit_msg_osd_op :: "ceph_msg_osd_op \<Rightarrow> ceph_msg_osd_op" where
  "deinit_msg_osd_op req = req"

definition decode_spgid :: "wire \<Rightarrow> byte list \<Rightarrow> int \<times> byte list \<times> ceph_pg \<times> 8 word" where
  "decode_spgid W p0 =
     (case ceph_start_decoding W 1 p0 of
        (ret, beg, struct_len) \<Rightarrow>
          if ret \<noteq> 0 then (ret, beg, \<lparr>pg_pool = 0, pg_seed = 0\<rparr>, 0)
          else (case ceph_decode_pgid W beg of
                  (ret, p, pgid) \<Rightarrow>
                    if ret \<noteq> 0 then (ret, p, pgid, 0)
                    else (case decode_le 1 p of
                            None \<Rightarrow> (- EINVAL, p, pgid, 0)
                          | Some (shard, p) \<Rightarrow>
                              if unat struct_len < length beg - length p
                              then (- EINVAL, p, pgid, shard)
                              else (ret, drop (unat struct_len) beg, pgid, shard))))"

text \<open>
  \<open>osd_req_decode_op\<close>: room for one \<open>struct ceph_osd_op\<close>, the three common members,
  then the members of the opcode. An opcode outside the list is \<open>-EINVAL\<close>.
\<close>

definition osd_req_decode_op ::
  "wire \<Rightarrow> byte list \<Rightarrow> ceph_osd_req_op \<Rightarrow> int \<times> byte list \<times> ceph_osd_req_op" where
  "osd_req_decode_op W p dst =
     (if length p < sizeof_osd_op W then (- EINVAL, p, dst)
      else case raw_osd_op W (take (sizeof_osd_op W) p) of
             (src_op, src_flags, src_payload_len, src_offset, src_length) \<Rightarrow>
               (let p' = drop (sizeof_osd_op W) p;
                    dst1 = dst\<lparr>opcode := src_op, flags := src_flags, indata_len := src_payload_len\<rparr>
                in if src_op \<in> {CEPH_OSD_OP_READ, CEPH_OSD_OP_WRITE, CEPH_OSD_OP_WRITEFULL,
                                 CEPH_OSD_OP_ZERO, CEPH_OSD_OP_TRUNCATE}
                   then (0, p', dst1\<lparr>extent_offset := src_offset, extent_length := src_length\<rparr>)
                   else case src_op of
                          CEPH_OSD_OP_OTHER _ \<Rightarrow> (- EINVAL, p', dst1)
                        | _ \<Rightarrow> (0, p', dst1)))"

text \<open>The loop \<open>for (i = 0; i < req->num_ops; i++)\<close> of the decoder, from \<open>i\<close> on,
  with the value \<open>ret\<close> has on entry.\<close>

function decode_ops_loop ::
  "wire \<Rightarrow> byte list \<Rightarrow> ceph_msg_osd_op \<Rightarrow> int \<Rightarrow> nat \<Rightarrow> (int \<times> byte list \<times> ceph_msg_osd_op) option" where
  "decode_ops_loop W p req ret i =
     (if i < unat (num_ops req)
      then if length (ops req) \<le> i then None
           else (case osd_req_decode_op W p (ops req ! i) of
                   (ret1, p1, op1) \<Rightarrow>
                     (let req1 = req\<lparr>ops := (ops req)[i := op1]\<rparr>
                      in if ret1 \<noteq> 0 then Some (ret1, p1, req1)
                         else decode_ops_loop W p1 req1 ret1 (i + 1)))
      else Some (ret, p, req))"
  by pat_completeness auto
termination
  by (relation "measure (\<lambda>(W, p, req, ret, i). unat (num_ops req) - i)") auto

declare decode_ops_loop.simps [simp del]

fun decode_snaps :: "nat \<Rightarrow> byte list \<Rightarrow> (u64 list \<times> byte list) option" where
  "decode_snaps 0 p = Some ([], p)"
| "decode_snaps (Suc n) p =
     (case decode_le 8 p of
        None \<Rightarrow> None
      | Some (v, p1) \<Rightarrow>
          (case decode_snaps n p1 of
             None \<Rightarrow> None
           | Some (vs, p2) \<Rightarrow> Some (v # vs, p2)))"

text \<open>
  \<open>ceph_decode_msg_osd_op\<close>, in the order of the source. It is written in parts
  that hand the local variable \<open>ret\<close> on (the head up to the object name, the ops, the
  snapshot array, the tail). The result is the code the function returns
  and \<open>*req\<close> as it leaves it. A jump to \<open>bad\<close> returns \<open>-EINVAL\<close>; a jump to \<open>err\<close>
  returns \<open>ret\<close> as it stands at the jump.
\<close>

definition decode_snap_array ::
  "ceph_osd_server \<Rightarrow> ceph_msg_osd_op \<Rightarrow> byte list
     \<Rightarrow> int \<times> ceph_osd_server + u64 list \<times> byte list \<times> ceph_osd_server" where
  "decode_snap_array st req p =
     (if num_snaps req \<noteq> 0
      then (case alloc st of
              (False, st1) \<Rightarrow> Inl (- ENOMEM, st1)
            | (True, st1) \<Rightarrow>
                (case decode_snaps (unat (num_snaps req)) p of
                   None \<Rightarrow> Inl (- EINVAL, st1)
                 | Some (vs, p1) \<Rightarrow> Inr (vs, p1, st1)))
      else Inr (snaps req, p, st))"

definition decode_tail ::
  "ceph_osd_server \<Rightarrow> byte list \<Rightarrow> ceph_msg_osd_op \<Rightarrow> int
     \<Rightarrow> int \<times> ceph_msg_osd_op \<times> ceph_osd_server" where
  "decode_tail st p req ret =
     (case decode_le 8 p of
        None \<Rightarrow> (- EINVAL, deinit_msg_osd_op req, st)
      | Some (snapid, p) \<Rightarrow>
     (let req = req\<lparr>hoid := (hoid req)\<lparr>hoid_snapid := snapid\<rparr>\<rparr> in
      case decode_le 8 p of
        None \<Rightarrow> (- EINVAL, deinit_msg_osd_op req, st)
      | Some (sseq, p) \<Rightarrow>
     (let req = req\<lparr>snap_seq := sseq\<rparr> in
      case decode_le 4 p of
        None \<Rightarrow> (- EINVAL, deinit_msg_osd_op req, st)
      | Some (nsnaps, p) \<Rightarrow>
     (let req = req\<lparr>num_snaps := nsnaps\<rparr> in
      if 1024 < num_snaps req then (ret, deinit_msg_osd_op req, st)
      else
        (case decode_snap_array st req p of
           Inl (ret1, st1) \<Rightarrow> (ret1, deinit_msg_osd_op req, st1)
         | Inr (vs, p, st1) \<Rightarrow>
        (let req = req\<lparr>snaps := vs\<rparr> in
         case decode_le 4 p of
           None \<Rightarrow> (- EINVAL, deinit_msg_osd_op req, st1)
         | Some (att, p) \<Rightarrow>
        (case decode_le 8 p of
           None \<Rightarrow> (- EINVAL, deinit_msg_osd_op req\<lparr>attempts := att\<rparr>, st1)
         | Some (feat, p) \<Rightarrow>
             (0, req\<lparr>attempts := att, features := feat,
                     hoid := (hoid req)\<lparr>hoid_pool := pg_pool (spgid_pgid req), hoid_key := None,
                                         hoid_nspace := oloc_pool_ns req\<rparr>\<rparr>, st1))))))))"

definition decode_head ::
  "wire \<Rightarrow> ceph_msg \<Rightarrow> ceph_msg_osd_op \<Rightarrow> int \<times> ceph_msg_osd_op + int \<times> byte list \<times> ceph_msg_osd_op" where
  "decode_head W msg req0 =
     (let req = (init_msg_osd_op req0)\<lparr>tid := hdr_tid msg\<rparr>;
          bad = Inl (- EINVAL, deinit_msg_osd_op req)
      in case decode_spgid W (front msg) of
           (ret, p, pgid, shard) \<Rightarrow>
      (let req = req\<lparr>spgid_pgid := pgid, spgid_shard := shard\<rparr> in
       if ret \<noteq> 0 then Inl (ret, deinit_msg_osd_op req)
       else (case decode_le 4 p of None \<Rightarrow> bad | Some (hash, p) \<Rightarrow>
            (case decode_le 4 p of None \<Rightarrow> bad | Some (ep, p) \<Rightarrow>
            (case decode_le 4 p of None \<Rightarrow> bad | Some (fl, p) \<Rightarrow>
      (let req = req\<lparr>hoid := (hoid req)\<lparr>hoid_hash := hash\<rparr>, epoch := ep, req_flags := fl\<rparr> in
       case ceph_start_decoding W 2 p of
         (ret, beg, struct_len) \<Rightarrow>
           if ret \<noteq> 0 then Inl (ret, deinit_msg_osd_op req)
           else (case decode_skip_n (sizeof_osd_reqid W) beg of None \<Rightarrow> bad | Some p \<Rightarrow>
             if unat struct_len < length beg - length p then bad
             else (case decode_skip_n (sizeof_blkin_trace_info W) (drop (unat struct_len) beg) of
                    None \<Rightarrow> bad | Some p \<Rightarrow>
                  (case decode_skip_n 4 p of None \<Rightarrow> bad | Some p \<Rightarrow>
                  (case decode_le 4 p of None \<Rightarrow> bad | Some (sec :: u32, p) \<Rightarrow>
                  (case decode_le 4 p of None \<Rightarrow> bad | Some (nsec :: u32, p) \<Rightarrow>
      (let req = req\<lparr>mtime := \<lparr>tv_sec = ucast sec, tv_nsec = ucast nsec\<rparr>\<rparr> in
       case ceph_oloc_decode W p of
         (ret, p, pool_ns) \<Rightarrow>
      (let req = req\<lparr>oloc_pool_ns := pool_ns\<rparr> in
       if ret \<noteq> 0 then Inl (ret, deinit_msg_osd_op req)
       else (case decode_le 4 p of None \<Rightarrow> bad | Some (strlen :: u32, p) \<Rightarrow>
            if length p < unat strlen then bad
            else
              (let ret = ceph_oid_aprintf W (take (unat strlen) p);
                   req = req\<lparr>hoid := (hoid req)\<lparr>hoid_name := take (unat strlen) p\<rparr>\<rparr>;
                   p = drop (unat strlen) p
               in if ret \<noteq> 0 then Inl (ret, deinit_msg_osd_op req)
                  else Inr (ret, p, req))))))))))))))))"

definition ceph_decode_msg_osd_op ::
  "wire \<Rightarrow> ceph_osd_server \<Rightarrow> ceph_msg \<Rightarrow> ceph_msg_osd_op
     \<Rightarrow> (int \<times> ceph_msg_osd_op \<times> ceph_osd_server) option" where
  "ceph_decode_msg_osd_op W st msg req0 =
     (case decode_head W msg req0 of
        Inl (ret, req) \<Rightarrow> Some (ret, req, st)
      | Inr (ret, p, req) \<Rightarrow>
          (case decode_le 2 p of
             None \<Rightarrow> Some (- EINVAL, deinit_msg_osd_op req, st)
           | Some (n :: u16, p) \<Rightarrow>
               (let req = req\<lparr>num_ops := ucast n\<rparr>
                in if CEPH_OSD_MAX_OPS < unat (num_ops req)
                   then Some (ret, deinit_msg_osd_op req, st)
                   else (case decode_ops_loop W p req ret 0 of
                           None \<Rightarrow> None
                         | Some (ret, p, req) \<Rightarrow>
                             if ret \<noteq> 0 then Some (ret, deinit_msg_osd_op req, st)
                             else Some (decode_tail st p req ret)))))"

subsection \<open>The reply and handle_osd_ops\<close>

text \<open>
  The reply message, by the members \<open>create_osd_op_reply\<close> encodes. A raw op that
  \<open>osd_req_encode_op\<close> does not know is left as the message buffer had it (\<open>None\<close>).
\<close>

record ceph_osd_op_raw =
  raw_op :: osd_opcode
  raw_flags :: u32
  raw_payload_len :: u32

record osd_opreply =
  rep_tid :: u64
  rep_oid :: "byte list"
  rep_pgid :: ceph_pg
  rep_flags :: u64
  rep_result :: int
  rep_epoch :: u32
  rep_num_ops :: u32
  rep_ops :: "ceph_osd_op_raw option list"
  rep_attempts :: u32
  rep_rvals :: "int list"
  rep_data_len :: u32
  rep_data :: "mem list"

definition CEPH_OSD_FLAG_ACK :: u64 where "CEPH_OSD_FLAG_ACK = 1"
definition CEPH_OSD_FLAG_ONNVRAM :: u64 where "CEPH_OSD_FLAG_ONNVRAM = 2"
definition CEPH_OSD_FLAG_ONDISK :: u64 where "CEPH_OSD_FLAG_ONDISK = 4"

definition osd_req_encode_op :: "ceph_osd_req_op \<Rightarrow> ceph_osd_op_raw option \<times> u32" where
  "osd_req_encode_op src =
     (case opcode src of
        CEPH_OSD_OP_OTHER _ \<Rightarrow> (None, 0)
      | _ \<Rightarrow> (Some \<lparr>raw_op = opcode src, raw_flags = flags src, raw_payload_len = outdata_len src\<rparr>,
              outdata_len src))"

text \<open>
  \<open>create_osd_op_reply\<close>: \<open>None\<close> inside is the \<open>NULL\<close> it returns when the message
  cannot be allocated; reading \<open>req->ops\<close> beyond the array is left undefined.
\<close>

definition create_osd_op_reply ::
  "ceph_osd_server \<Rightarrow> ceph_msg_osd_op \<Rightarrow> int \<Rightarrow> u32 \<Rightarrow> u64
     \<Rightarrow> (osd_opreply option \<times> ceph_osd_server) option" where
  "create_osd_op_reply st req result ep acktype =
     (if length (ops req) < unat (num_ops req) then None
      else case alloc st of
             (False, st1) \<Rightarrow> Some (None, st1)
           | (True, st1) \<Rightarrow>
               (let used = take (unat (num_ops req)) (ops req);
                    enc = map osd_req_encode_op used
                in Some (Some \<lparr>rep_tid = tid req,
                                rep_oid = hoid_name (hoid req),
                                rep_pgid = spgid_pgid req,
                                rep_flags = (ucast (req_flags req) AND
                                               NOT (CEPH_OSD_FLAG_ONDISK OR CEPH_OSD_FLAG_ONNVRAM OR
                                                    CEPH_OSD_FLAG_ACK)) OR acktype,
                                rep_result = result,
                                rep_epoch = ep,
                                rep_num_ops = num_ops req,
                                rep_ops = map fst enc,
                                rep_attempts = attempts req,
                                rep_rvals = map rval used,
                                rep_data_len = sum_list (map snd enc),
                                rep_data = concat (map (\<lambda>op. case outdata op of None \<Rightarrow> [] | Some d \<Rightarrow> [d]) used)\<rparr>,
                         st1)))"

text \<open>
  \<open>handle_osd_ops\<close>: the new server state and the reply handed to \<open>ceph_con_send\<close>, if
  any. Nothing on this path closes the connection.
\<close>

definition handle_osd_ops ::
  "wire \<Rightarrow> ceph_osd_server \<Rightarrow> ceph_msg \<Rightarrow> (ceph_osd_server \<times> osd_opreply option) option" where
  "handle_osd_ops W st msg =
     (if 1 < num_data_items msg then None
      else case ceph_decode_msg_osd_op W st msg (stale_req st) of
             None \<Rightarrow> None
           | Some (ret, req, st0) \<Rightarrow>
               if ret \<noteq> 0 then Some (st0, None)
               else
                 (let in_cur = ceph_msg_data_cursor_init (data msg) (data_length msg)
                  in case osd_ops_loop st0 req in_cur ret 0 of
                       None \<Rightarrow> None
                     | Some (ret', st1, req', cur') \<Rightarrow>
                         (case create_osd_op_reply st1 req' ret' (osdmap_epoch st1)
                                 (CEPH_OSD_FLAG_ACK OR CEPH_OSD_FLAG_ONDISK) of
                            None \<Rightarrow> None
                          | Some (reply, st2) \<Rightarrow> Some (st2, reply))))"

definition CEPH_MSG_OSD_OP :: u16 where
  "CEPH_MSG_OSD_OP = 42"

definition osds_dispatch ::
  "wire \<Rightarrow> ceph_osd_server \<Rightarrow> ceph_msg \<Rightarrow> (ceph_osd_server \<times> osd_opreply option) option" where
  "osds_dispatch W st msg =
     (if hdr_type msg = CEPH_MSG_OSD_OP then handle_osd_ops W st msg else Some (st, None))"

text \<open>The messages of a connection, dispatched in arrival order.\<close>

fun osds_run :: "wire \<Rightarrow> ceph_osd_server \<Rightarrow> ceph_msg list \<Rightarrow> ceph_osd_server option" where
  "osds_run W st [] = Some st"
| "osds_run W st (msg # msgs) =
     (case osds_dispatch W st msg of
        None \<Rightarrow> None
      | Some (st', reply) \<Rightarrow> osds_run W st' msgs)"

text \<open>
  Two notions for the copy loop. \<open>write_inv\<close>: while \<open>dst_len\<close> is not used up, \<open>blk\<close>
  points to a block of the object. \<open>chunk_len\<close>: the length \<open>len\<close> that a pass of the
  loop computes, the minimum of the bytes the cursor has, the bytes left in the current
  block and the bytes left to write.
\<close>

definition write_inv :: "write_state \<Rightarrow> bool" where
  "write_inv w =
     (w_dst_len w \<noteq> 0 \<longrightarrow>
        (\<exists>k b. w_blk w = Some k \<and> lookup_object_block_by_off (o_blocks (w_obj w)) k = Some b))"

definition chunk_len :: "write_state \<Rightarrow> size_t" where
  "chunk_len w =
     min (min (iov_iter_count (iter (w_cur w)))
              (if w_dst_len w = 0
               then OSDS_BLOCK_SIZE - (w_dst_off w AND NOT OSDS_BLOCK_MASK)
               else w_dst_len w))
         (w_len_write w)"

section \<open>Example states\<close>

text \<open>
  Concrete inputs for the worked examples below: user memory that never faults, a
  request for the object with the empty identity stamped \<open>mtime = (42, 0)\<close>, a server
  with an empty object table whose uninitialised memory holds bytes \<open>0xEE\<close> and the time
  \<open>(7, 7)\<close>, ops by opcode and extent, and a data cursor over \<open>n\<close> bytes \<open>b\<close>.
\<close>

definition uacc0 :: uaccess where
  "uacc0 = \<lparr>access_ok = (\<lambda>_. True), raw_copy_from_user = (\<lambda>_. 0)\<rparr>"

definition req0 :: ceph_msg_osd_op where
  "req0 = \<lparr>tid = 1, features = 0, epoch = 0, spgid_pgid = \<lparr>pg_pool = 0, pg_seed = 0\<rparr>,
            spgid_shard = 0, req_flags = 0, attempts = 0, mtime = \<lparr>tv_sec = 42, tv_nsec = 0\<rparr>,
            num_ops = 0, ops = replicate CEPH_OSD_MAX_OPS zero_op, oloc_pool_ns = [],
            hoid = empty_hoid, num_snaps = 0, snap_seq = 0, snaps = []\<rparr>"

definition srv0 :: ceph_osd_server where
  "srv0 = \<lparr>s_objects = Map.empty, opt_noop_write = False, osdmap_epoch = 1, uacc = uacc0,
            alloc_plan = [], stale_mtime = \<lparr>tv_sec = 7, tv_nsec = 7\<rparr>, stale_req = req0,
            ram = (\<lambda>_. 0xEE), next_page = 4096\<rparr>"

definition write_op :: "u64 \<Rightarrow> u64 \<Rightarrow> ceph_osd_req_op" where
  "write_op off len = zero_op\<lparr>opcode := CEPH_OSD_OP_WRITE, extent_offset := off, extent_length := len\<rparr>"

definition read_op :: "u64 \<Rightarrow> u64 \<Rightarrow> ceph_osd_req_op" where
  "read_op off len = zero_op\<lparr>opcode := CEPH_OSD_OP_READ, extent_offset := off, extent_length := len\<rparr>"

definition stat_op :: ceph_osd_req_op where
  "stat_op = zero_op\<lparr>opcode := CEPH_OSD_OP_STAT\<rparr>"

definition data_cursor :: "byte \<Rightarrow> size_t \<Rightarrow> ceph_msg_data_cursor" where
  "data_cursor b n = ceph_msg_data_cursor_init [\<lparr>seg_len = n, seg_base = (\<lambda>_. b)\<rparr>] n"

text \<open>
  A server that holds one object under the empty identity: one block, five bytes, last
  modified at \<open>(42, 9)\<close>.
\<close>

definition obj5 :: ceph_osds_object where
  "obj5 = \<lparr>o_hoid = empty_hoid, o_blocks = [\<lparr>b_off = 0, b_page = zero_page\<rparr>], o_size = 5,
            o_mtime = \<lparr>tv_sec = 42, tv_nsec = 9\<rparr>\<rparr>"

definition srv5 :: ceph_osd_server where
  "srv5 = srv0\<lparr>s_objects := [empty_hoid \<mapsto> obj5]\<rparr>"

text \<open>
  The invariant of a block map: the keys are in strictly ascending signed order, as the
  tree keeps them, and every key is a multiple of the block size. \<open>store_inv\<close> asks it
  of every object of the table.
\<close>

definition blocks_inv :: "ceph_osds_block list \<Rightarrow> bool" where
  "blocks_inv bs =
     (sorted_wrt (\<lambda>a b. sint a < sint b) (map b_off bs) \<and>
      (\<forall>k \<in> set (map b_off bs). k AND NOT OSDS_BLOCK_MASK = 0))"

definition store_inv :: "ceph_osd_server \<Rightarrow> bool" where
  "store_inv st = (\<forall>h obj. s_objects st h = Some obj \<longrightarrow> blocks_inv (o_blocks obj))"

text \<open>
  A wire layout for the examples. A versioned structure starts with six bytes: version,
  compat version, 32-bit length. A placement group is a version byte, the pool, the seed
  and the preferred osd, 17 bytes. The locator is a versioned structure whose content is
  skipped. A request id has 21 bytes and a trace blob 24. An op has 64 bytes: the opcode,
  the flags, the payload length, then the extent's offset and length.
\<close>

definition start_decoding0 :: "nat \<Rightarrow> byte list \<Rightarrow> int \<times> byte list \<times> u32" where
  "start_decoding0 v p =
     (if length p < 6 then (- 34, p, 0)
      else if of_nat v < p ! 1 then (- EINVAL, drop 2 p, 0)
      else if length (drop 6 p) < unat (le_word (take 4 (drop 2 p)) :: u32)
           then (- 34, drop 6 p, le_word (take 4 (drop 2 p)))
           else (0, drop 6 p, le_word (take 4 (drop 2 p))))"

definition decode_pgid0 :: "byte list \<Rightarrow> int \<times> byte list \<times> ceph_pg" where
  "decode_pgid0 p =
     (if length p < 17 then (- EINVAL, p, \<lparr>pg_pool = 0, pg_seed = 0\<rparr>)
      else (0, drop 17 p,
            \<lparr>pg_pool = le_word (take 8 (drop 1 p)), pg_seed = le_word (take 4 (drop 9 p))\<rparr>))"

definition oloc_decode0 :: "byte list \<Rightarrow> int \<times> byte list \<times> byte list" where
  "oloc_decode0 p =
     (case start_decoding0 3 p of
        (ret, q, len) \<Rightarrow> if ret \<noteq> 0 then (ret, q, []) else (0, drop (unat len) q, []))"

definition opcode_of :: "u16 \<Rightarrow> osd_opcode" where
  "opcode_of w =
     (if w = 0x1201 then CEPH_OSD_OP_READ
      else if w = 0x1202 then CEPH_OSD_OP_STAT
      else if w = 0x2201 then CEPH_OSD_OP_WRITE
      else CEPH_OSD_OP_OTHER w)"

definition raw_osd_op0 :: "byte list \<Rightarrow> osd_opcode \<times> u32 \<times> u32 \<times> u64 \<times> u64" where
  "raw_osd_op0 bs =
     (opcode_of (le_word (take 2 bs)), le_word (take 4 (drop 2 bs)), le_word (take 4 (drop 6 bs)),
      le_word (take 8 (drop 10 bs)), le_word (take 8 (drop 18 bs)))"

definition aprintf0 :: "byte list \<Rightarrow> int" where
  "aprintf0 name = 0"

definition wire0 :: wire where
  "wire0 = \<lparr>ceph_start_decoding = start_decoding0, ceph_decode_pgid = decode_pgid0,
             ceph_oloc_decode = oloc_decode0, ceph_oid_aprintf = aprintf0,
             sizeof_osd_reqid = 21, sizeof_blkin_trace_info = 24, sizeof_osd_op = 64,
             raw_osd_op = raw_osd_op0\<rparr>"

text \<open>
  Three requests for the object named \<open>X\<close> with \<open>mtime = (42, 0)\<close> in this layout: one
  WRITE of the two data bytes \<open>hi\<close> at offset 0; a READ with \<open>FAILOK\<close> followed by that
  WRITE; and a front that claims 17 ops.
\<close>

definition front_write :: "byte list" where
  "front_write = [
     1, 1, 18, 0, 0, 0, 1, 0, 0, 0, 0, 0, 0, 0, 0, 0, 0, 0, 0, 255, 255, 255, 255, 255, 0, 0,
      0, 0, 1, 0, 0, 0, 0, 0, 0, 0, 2, 2, 21, 0, 0, 0, 0, 0, 0, 0, 0, 0, 0, 0, 0, 0, 0, 0, 0,
      0, 0, 0, 0, 0, 0, 0, 0, 0, 0, 0, 0, 0, 0, 0, 0, 0, 0, 0, 0, 0, 0, 0, 0, 0, 0, 0, 0, 0,
      0, 0, 0, 0, 0, 0, 0, 42, 0, 0, 0, 0, 0, 0, 0, 5, 3, 0, 0, 0, 0, 1, 0, 0, 0, 88, 1, 0, 1,
      34, 0, 0, 0, 0, 2, 0, 0, 0, 0, 0, 0, 0, 0, 0, 0, 0, 2, 0, 0, 0, 0, 0, 0, 0, 0, 0, 0, 0,
      0, 0, 0, 0, 0, 0, 0, 0, 0, 0, 0, 0, 0, 0, 0, 0, 0, 0, 0, 0, 0, 0, 0, 0, 0, 0, 0, 0, 0,
      0, 0, 0, 0, 0, 0, 0, 0, 0, 0, 0, 0, 0, 0, 0, 0, 0, 0, 0, 0, 0, 0, 0, 0, 0, 0, 0, 0, 0,
      0, 0, 0, 0, 0, 0, 0, 0]"


definition front_17_ops :: "byte list" where
  "front_17_ops = [
     1, 1, 18, 0, 0, 0, 1, 0, 0, 0, 0, 0, 0, 0, 0, 0, 0, 0, 0, 255, 255, 255, 255, 255, 0, 0,
      0, 0, 1, 0, 0, 0, 0, 0, 0, 0, 2, 2, 21, 0, 0, 0, 0, 0, 0, 0, 0, 0, 0, 0, 0, 0, 0, 0, 0,
      0, 0, 0, 0, 0, 0, 0, 0, 0, 0, 0, 0, 0, 0, 0, 0, 0, 0, 0, 0, 0, 0, 0, 0, 0, 0, 0, 0, 0,
      0, 0, 0, 0, 0, 0, 0, 42, 0, 0, 0, 0, 0, 0, 0, 5, 3, 0, 0, 0, 0, 1, 0, 0, 0, 88, 17, 0,
      0, 0, 0, 0, 0, 0, 0, 0, 0, 0, 0, 0, 0, 0, 0, 0, 0, 0, 0, 0, 0, 0, 0, 0, 0, 0, 0, 0, 0,
      0, 0, 0]"

definition msg_of :: "byte list \<Rightarrow> byte list \<Rightarrow> ceph_msg" where
  "msg_of fr payload =
     \<lparr>hdr_type = CEPH_MSG_OSD_OP, hdr_tid = 1, front = fr,
      num_data_items = (if payload = [] then 0 else 1),
      data = (if payload = [] then []
              else [\<lparr>seg_len = 4096, seg_base = (\<lambda>k. if k < length payload then payload ! k else 0)\<rparr>]),
      data_length = of_nat (length payload)\<rparr>"

text \<open>
  Further example inputs. \<open>uacc1\<close>: user memory whose every copy leaves the last byte
  of the chunk uncopied. \<open>ucursor\<close>: a user-segment cursor over segments of 3 and 4
  bytes that promises 5 bytes. \<open>srv5p\<close>: the server \<open>srv5\<close> when the first word of the
  page it hands out next holds the address of the page's second word. \<open>stat_reply\<close>: the
  code, \<open>outdata_len\<close> and the first 16 bytes of the reply buffer of a STAT.
  \<open>size_after\<close>: the code of a write and the size it leaves the object with.
  \<open>block_offsets\<close>: the keys of an object's block map after a run, in tree order.
  \<open>front_write_cross\<close>: the front of one WRITE of three data bytes at offset 65535 of
  the object named \<open>X\<close>, which ends in the block after the one it starts in.
\<close>

definition uacc1 :: uaccess where
  "uacc1 = \<lparr>access_ok = (\<lambda>_. True),
            raw_copy_from_user = (\<lambda>v. if snd (snd v) = 0 then 0 else 1)\<rparr>"

definition ucursor :: iov_iter where
  "ucursor = \<lparr>itype = ITER_IOVEC, iov_offset = 0, count = 5,
              segs = [\<lparr>seg_len = 3, seg_base = zero_page\<rparr>, \<lparr>seg_len = 4, seg_base = zero_page\<rparr>],
              nr_segs = 2\<rparr>"

definition srv5p :: ceph_osd_server where
  "srv5p = srv5\<lparr>ram := store_bytes (ram srv5) 4096 (le_bytes 8 (4096 + 8 :: u64))\<rparr>"

definition stat_reply ::
  "(int \<times> ceph_osd_server \<times> ceph_osd_req_op) option \<Rightarrow> (int \<times> u32 \<times> byte list option) option" where
  "stat_reply r =
     map_option (\<lambda>(ret, st, op). (ret, outdata_len op, map_option (\<lambda>m. map m [0..<16]) (outdata op))) r"

definition size_after ::
  "(int \<times> ceph_osd_server \<times> ceph_msg_data_cursor) option \<Rightarrow> ceph_hobject_id
     \<Rightarrow> (int \<times> size_t option) option" where
  "size_after r h = map_option (\<lambda>(ret, st, cur). (ret, map_option o_size (s_objects st h))) r"

definition block_offsets :: "ceph_osd_server option \<Rightarrow> ceph_hobject_id \<Rightarrow> off_t list option option" where
  "block_offsets r h =
     map_option (\<lambda>st. map_option (\<lambda>ob. map b_off (o_blocks ob)) (s_objects st h)) r"

definition front_write_cross :: "byte list" where
  "front_write_cross = [
     1, 1, 18, 0, 0, 0, 1, 0, 0, 0, 0, 0, 0, 0, 0, 0, 0, 0, 0, 255, 255, 255, 255, 255, 0,
      0, 0, 0, 1, 0, 0, 0, 0, 0, 0, 0, 2, 2, 21, 0, 0, 0, 0, 0, 0, 0, 0, 0, 0, 0, 0, 0, 0,
      0, 0, 0, 0, 0, 0, 0, 0, 0, 0, 0, 0, 0, 0, 0, 0, 0, 0, 0, 0, 0, 0, 0, 0, 0, 0, 0, 0,
      0, 0, 0, 0, 0, 0, 0, 0, 0, 0, 42, 0, 0, 0, 0, 0, 0, 0, 5, 3, 0, 0, 0, 0, 1, 0, 0, 0,
      88, 1, 0, 1, 34, 0, 0, 0, 0, 3, 0, 0, 0, 255, 255, 0, 0, 0, 0, 0, 0, 3, 0, 0, 0, 0,
      0, 0, 0, 0, 0, 0, 0, 0, 0, 0, 0, 0, 0, 0, 0, 0, 0, 0, 0, 0, 0, 0, 0, 0, 0, 0, 0, 0,
      0, 0, 0, 0, 0, 0, 0, 0, 0, 0, 0, 0, 0, 0, 0, 0, 0, 0, 0, 0, 0, 0, 0, 0, 0, 0, 0, 0,
      0, 0, 0, 0, 0, 0, 0, 0, 0, 0, 0, 0, 0, 0, 0, 0, 0]"

text \<open>
  \<open>fresh_op\<close>: an op as \<open>init_msg_osd_op\<close> zeroes it, in the members no decoder
  writes: no reply data and \<open>rval = 0\<close>.
\<close>

definition fresh_op :: "ceph_osd_req_op \<Rightarrow> bool" where
  "fresh_op op = (outdata_len op = 0 \<and> outdata op = None \<and> rval op = 0)"

text \<open>
  Inputs for the worked requests on reads and on \<open>FAILOK\<close>. \<open>front_read_eof\<close>: one
  READ of 10 bytes at offset 5 of the object named \<open>X\<close>. \<open>front_read_write_strict\<close>:
  the request \<open>front_read_write\<close> with the \<open>FAILOK\<close> flag of its READ cleared.
  \<open>hoidX\<close> is the identity the decoder builds for these fronts, \<open>srvX\<close> a server that
  holds a five-byte object under it, and \<open>req_rw fl\<close> the decoded request of a READ with
  flags \<open>fl\<close> followed by a WRITE of two bytes. \<open>reply_summary\<close>: of a handled message,
  the result and the rvals of the reply, and the block keys of an object afterwards.
\<close>

definition front_read_eof :: "byte list" where
  "front_read_eof = [
     1, 1, 18, 0, 0, 0, 1, 0, 0, 0, 0, 0, 0, 0, 0, 0, 0, 0, 0, 255, 255, 255, 255, 255, 0,
      0, 0, 0, 1, 0, 0, 0, 0, 0, 0, 0, 2, 2, 21, 0, 0, 0, 0, 0, 0, 0, 0, 0, 0, 0, 0, 0, 0,
      0, 0, 0, 0, 0, 0, 0, 0, 0, 0, 0, 0, 0, 0, 0, 0, 0, 0, 0, 0, 0, 0, 0, 0, 0, 0, 0, 0,
      0, 0, 0, 0, 0, 0, 0, 0, 0, 0, 42, 0, 0, 0, 0, 0, 0, 0, 5, 3, 0, 0, 0, 0, 1, 0, 0, 0,
      88, 1, 0, 1, 18, 0, 0, 0, 0, 0, 0, 0, 0, 5, 0, 0, 0, 0, 0, 0, 0, 10, 0, 0, 0, 0, 0,
      0, 0, 0, 0, 0, 0, 0, 0, 0, 0, 0, 0, 0, 0, 0, 0, 0, 0, 0, 0, 0, 0, 0, 0, 0, 0, 0, 0,
      0, 0, 0, 0, 0, 0, 0, 0, 0, 0, 0, 0, 0, 0, 0, 0, 0, 0, 0, 0, 0, 0, 0, 0, 0, 0, 0, 0,
      0, 0, 0, 0, 0, 0, 0, 0, 0, 0, 0, 0, 0, 0, 0, 0]"


definition hoidX :: ceph_hobject_id where
  "hoidX = empty_hoid\<lparr>hoid_name := [0x58]\<rparr>"

definition srvX :: ceph_osd_server where
  "srvX = srv0\<lparr>s_objects := [hoidX \<mapsto> obj5\<lparr>o_hoid := hoidX\<rparr>]\<rparr>"



text \<open>
  What the claim on READ says byte \<open>k\<close> of the result is, in the claim's words: the
  byte at object position \<open>off + k\<close> is zero when no block covers the position, and the
  byte the covering block stores at the position's offset in the block otherwise. The
  block that covers a position is the one whose key is the position aligned down.
\<close>

definition spec_read_byte :: "ceph_osds_block list \<Rightarrow> off_t \<Rightarrow> nat \<Rightarrow> byte" where
  "spec_read_byte bs off k =
     (case lookup_object_block_by_off bs (ALIGN_DOWN (off + of_nat k) OSDS_BLOCK_SIZE) of
        None \<Rightarrow> 0
      | Some b \<Rightarrow> b_page b (unat ((off + of_nat k) AND NOT OSDS_BLOCK_MASK)))"

text \<open>
  Two objects for worked reads. \<open>objAB\<close>: blocks of bytes \<open>A\<close> at offset 0 and of bytes
  \<open>B\<close> at offset 131072, size 131172. \<open>objBig\<close>: a block at offset 0 and a block at
  offset \<open>2^32\<close>, size \<open>2^32 + 1\<close>. \<open>srv_with obj\<close> holds \<open>obj\<close> under the empty
  identity. \<open>read_reply r k\<close>: the code, \<open>outdata_len\<close> and byte \<open>k\<close> of the reply
  buffer of a READ.
\<close>

definition objAB :: ceph_osds_object where
  "objAB = \<lparr>o_hoid = empty_hoid,
            o_blocks = [\<lparr>b_off = 0, b_page = (\<lambda>_. 0x41)\<rparr>, \<lparr>b_off = 131072, b_page = (\<lambda>_. 0x42)\<rparr>],
            o_size = 131172, o_mtime = \<lparr>tv_sec = 42, tv_nsec = 0\<rparr>\<rparr>"

definition objBig :: ceph_osds_object where
  "objBig = \<lparr>o_hoid = empty_hoid,
             o_blocks = [\<lparr>b_off = 0, b_page = (\<lambda>_. 0x41)\<rparr>, \<lparr>b_off = 4294967296, b_page = (\<lambda>_. 0x42)\<rparr>],
             o_size = 4294967297, o_mtime = \<lparr>tv_sec = 42, tv_nsec = 0\<rparr>\<rparr>"

definition srv_with :: "ceph_osds_object \<Rightarrow> ceph_osd_server" where
  "srv_with obj = srv0\<lparr>s_objects := [empty_hoid \<mapsto> obj]\<rparr>"

definition read_reply ::
  "(int \<times> ceph_osd_server \<times> ceph_osd_req_op) option \<Rightarrow> nat \<Rightarrow> (int \<times> u32 \<times> byte option) option" where
  "read_reply r k = map_option (\<lambda>(ret, st, op). (ret, outdata_len op, map_option (\<lambda>m. m k) (outdata op))) r"

section \<open>The cursor walks stay inside a well-formed cursor\<close>

lemma segs_bytes_Cons [simp]: "segs_bytes (s # p) = unat (seg_len s) + segs_bytes p"
  by (simp add: segs_bytes_def)

lemma segs_bytes_Nil [simp]: "segs_bytes [] = 0"
  by (simp add: segs_bytes_def)

lemma iterate_bvec_wf:
  "walk_wf p skip n \<Longrightarrow>
   \<exists>p' skip' acc'. iterate_bvec STEP p n skip acc = Some (p', skip', acc') \<and> walk_wf p' skip' 0 \<and>
      segs_bytes p' - unat skip' = segs_bytes p - unat skip - unat n"
proof (induction p arbitrary: n skip acc)
  case Nil
  then show ?case by (simp add: walk_wf_def unat_eq_0)
next
  case (Cons s p)
  from Cons.prems have le: "skip \<le> seg_len s" and b: "unat n + unat skip \<le> unat (seg_len s) + segs_bytes p"
    by (simp_all add: walk_wf_def)
  show ?case
  proof (cases "n = 0")
    case True
    then show ?thesis using le by (simp add: walk_wf_def word_le_nat_alt)
  next
    case n0: False
    show ?thesis
    proof (cases "seg_len s - skip \<le> n")
      case True
      then have len: "min n (seg_len s - skip) = seg_len s - skip" by (simp add: min_def)
      have u: "unat (seg_len s - skip) = unat (seg_len s) - unat skip" using le by (simp add: unat_sub)
      have u3: "unat (seg_len s) - unat skip \<le> unat n" using True u by (simp add: word_le_nat_alt)
      then have u2: "unat (n - (seg_len s - skip)) = unat n - (unat (seg_len s) - unat skip)"
        using True u by (simp add: unat_sub)
      have "walk_wf p 0 (n - (seg_len s - skip))"
        using b u2 le by (cases p) (auto simp add: walk_wf_def word_le_nat_alt)
      from Cons.IH [OF this] obtain p' skip' acc' where
        "iterate_bvec STEP p (n - (seg_len s - skip)) 0 (if seg_len s - skip = 0 then acc else STEP (seg_base s, unat skip, seg_len s - skip) acc) = Some (p', skip', acc')"
        "walk_wf p' skip' 0" "segs_bytes p' - unat skip' = segs_bytes p - unat (0::size_t) - unat (n - (seg_len s - skip))"
        by blast
      then show ?thesis using n0 len u2 u3 le b by (simp add: word_le_nat_alt)
    next
      case False
      then have len: "min n (seg_len s - skip) = n" and ne: "n \<noteq> seg_len s - skip" by (auto simp add: min_def)
      have u: "unat (seg_len s - skip) = unat (seg_len s) - unat skip" using le by (simp add: unat_sub)
      have lt: "unat n < unat (seg_len s) - unat skip" using False u by (simp add: word_le_nat_alt not_le)
      have "unat (seg_len s) < 2 ^ LENGTH(64)" by (rule unsigned_less)
      with lt have "unat skip + unat n < 2 ^ LENGTH(64)" by linarith
      then have "unat (skip + n) = unat skip + unat n"
        by (simp only: unat_add_lem)
      then show ?thesis using n0 len ne lt by (auto simp add: walk_wf_def word_le_nat_alt)
    qed
  qed
qed

lemma iterate_kvec_loop_wf:
  "unat n \<le> segs_bytes p \<Longrightarrow> (n = 0 \<longrightarrow> skip \<le> seg_len s0) \<Longrightarrow>
   \<exists>p' skip' acc'. iterate_kvec_loop STEP (s0 # p) n skip acc = Some (p', skip', acc') \<and>
      walk_wf p' skip' 0 \<and> p' \<noteq> [] \<and>
      segs_bytes p' - unat skip' =
        (if n = 0 then segs_bytes (s0 # p) - unat skip else segs_bytes p - unat n)"
proof (induction p arbitrary: s0 n skip acc)
  case Nil
  then show ?case by (simp add: walk_wf_def unat_eq_0 word_le_nat_alt)
next
  case (Cons s p)
  show ?case
  proof (cases "n = 0")
    case True
    then show ?thesis using Cons.prems by (simp add: walk_wf_def word_le_nat_alt)
  next
    case n0: False
    show ?thesis
    proof (cases "seg_len s = 0")
      case True
      then have "unat n \<le> segs_bytes p" using Cons.prems by simp
      from Cons.IH [OF this, of skip s acc] n0 True show ?thesis by (simp add: min_def)
    next
      case s0: False
      then have len0: "min n (seg_len s) \<noteq> 0" using n0 by (simp add: min_def)
      have lenle: "min n (seg_len s) \<le> n" by simp
      have u: "unat (n - min n (seg_len s)) = unat n - unat (min n (seg_len s))"
        using lenle by (simp add: unat_sub)
      have um: "unat (min n (seg_len s)) = min (unat n) (unat (seg_len s))"
        by (simp add: min_def word_le_nat_alt)
      have a: "unat (n - min n (seg_len s)) \<le> segs_bytes p"
        using Cons.prems u um by simp
      have b: "n - min n (seg_len s) = 0 \<longrightarrow> min n (seg_len s) \<le> seg_len s"
        using min.cobounded2 by blast
      from Cons.IH [OF a b, of "STEP (seg_base s, 0, min n (seg_len s)) acc"]
      obtain p' skip' acc' where r:
        "iterate_kvec_loop STEP (s # p) (n - min n (seg_len s)) (min n (seg_len s))
           (STEP (seg_base s, 0, min n (seg_len s)) acc) = Some (p', skip', acc')"
        "walk_wf p' skip' 0" "p' \<noteq> []"
        "segs_bytes p' - unat skip' =
           (if n - min n (seg_len s) = 0 then segs_bytes (s # p) - unat (min n (seg_len s))
            else segs_bytes p - unat (n - min n (seg_len s)))"
        by blast
      have c: "segs_bytes p' - unat skip' = segs_bytes (s # p) - unat n"
      proof (cases "n - min n (seg_len s) = 0")
        case True
        then have "n = min n (seg_len s)" by simp
        then show ?thesis using r(4) True by simp
      next
        case False
        then have "min n (seg_len s) \<noteq> n" by auto
        then have m: "min n (seg_len s) = seg_len s" by (simp add: min_def split: if_splits)
        then have "seg_len s \<le> n" by (metis min.cobounded1)
        then have "unat (seg_len s) \<le> unat n" by (simp only: word_le_nat_alt)
        moreover have "segs_bytes p' - unat skip' = segs_bytes p - unat (n - seg_len s)"
          using r(4) False m by simp
        moreover have "unat (n - seg_len s) = unat n - unat (seg_len s)" using u m by simp
        ultimately show ?thesis using Cons.prems(1) by simp
      qed
      show ?thesis using n0 len0 r(1,2,3) c by (simp add: Let_def)
    qed
  qed
qed

lemma iterate_kvec_wf:
  assumes "walk_wf p skip n" and "p \<noteq> []"
  shows "\<exists>p' skip' acc'. iterate_kvec STEP p n skip acc = Some (p', skip', acc') \<and>
      walk_wf p' skip' 0 \<and> p' \<noteq> [] \<and>
      segs_bytes p' - unat skip' = segs_bytes p - unat skip - unat n"
proof -
  from assms obtain s q where p: "p = s # q" by (cases p) auto
  from assms p have le: "skip \<le> seg_len s" and b: "unat n + unat skip \<le> unat (seg_len s) + segs_bytes q"
    by (simp_all add: walk_wf_def)
  have le': "unat skip \<le> unat (seg_len s)" using le by (simp add: word_le_nat_alt)
  have u: "unat (seg_len s - skip) = unat (seg_len s) - unat skip" using le by (simp add: unat_sub)
  define len where "len = min n (seg_len s - skip)"
  have um: "unat len = min (unat n) (unat (seg_len s) - unat skip)"
    using u by (simp add: len_def min_def word_le_nat_alt)
  have "len \<le> n" by (simp add: len_def)
  then have un: "unat (n - len) = unat n - unat len" by (simp add: unat_sub)
  have "unat (seg_len s) < 2 ^ LENGTH(64)" by (rule unsigned_less)
  then have "unat skip + unat len < 2 ^ LENGTH(64)" using um le' by linarith
  then have us: "unat (skip + len) = unat skip + unat len" by (simp only: unat_add_lem)
  have a: "unat (n - len) \<le> segs_bytes q" using un um b le' by linarith
  have "unat (skip + len) \<le> unat (seg_len s)" using us um le' by linarith
  then have b2: "n - len = 0 \<longrightarrow> skip + len \<le> seg_len s" by (simp add: word_le_nat_alt)
  have unf: "iterate_kvec STEP p n skip acc =
      (if len \<noteq> 0 then iterate_kvec_loop STEP p (n - len) (skip + len) (STEP (seg_base s, unat skip, len) acc)
       else iterate_kvec_loop STEP p n skip acc)"
    by (simp add: iterate_kvec_def p len_def Let_def)
  show ?thesis
  proof (cases "len = 0")
    case True
    have a': "unat n \<le> segs_bytes q" using True a by simp
    have b': "n = 0 \<longrightarrow> skip \<le> seg_len s" using le by simp
    from iterate_kvec_loop_wf [OF a' b', of STEP acc] obtain p' skip' acc' where r:
      "iterate_kvec_loop STEP (s # q) n skip acc = Some (p', skip', acc')"
      "walk_wf p' skip' 0" "p' \<noteq> []"
      "segs_bytes p' - unat skip' = (if n = 0 then segs_bytes (s # q) - unat skip else segs_bytes q - unat n)"
      by blast
    have "unat len = 0" using True by simp
    then have "unat n \<noteq> 0 \<Longrightarrow> unat (seg_len s) = unat skip"
      using um le' by (simp add: min_def split: if_splits)
    then have "segs_bytes p' - unat skip' = segs_bytes p - unat skip - unat n"
      using r(4) p by (auto simp add: unat_eq_0)
    then show ?thesis using r(1,2,3) True p unf by simp
  next
    case False
    from iterate_kvec_loop_wf [OF a b2, of STEP "STEP (seg_base s, unat skip, len) acc"]
    obtain p' skip' acc' where r:
      "iterate_kvec_loop STEP (s # q) (n - len) (skip + len) (STEP (seg_base s, unat skip, len) acc)
         = Some (p', skip', acc')"
      "walk_wf p' skip' 0" "p' \<noteq> []"
      "segs_bytes p' - unat skip' =
         (if n - len = 0 then segs_bytes (s # q) - unat (skip + len) else segs_bytes q - unat (n - len))"
      by blast
    have c: "segs_bytes p' - unat skip' = segs_bytes p - unat skip - unat n"
    proof (cases "n - len = 0")
      case True
      then have "unat (n - len) = 0" by simp
      then have "unat n = unat len" using un um by linarith
      then show ?thesis using r(4) True us p by simp
    next
      case False
      then have "unat (n - len) \<noteq> 0" by (simp add: unat_eq_0)
      then have "unat len = unat (seg_len s) - unat skip" using un um by linarith
      moreover have "unat len \<le> unat n" using um by linarith
      ultimately show ?thesis using r(4) False un p le' b by simp
    qed
    show ?thesis using False r(1,2,3) c p unf by simp
  qed
qed

lemma iterate_iovec_loop_zero:
  "iterate_iovec_loop (\<lambda>v a. (a, 0)) p 0 n skip acc =
     map_option (\<lambda>(p', skip', a). (p', skip', 0, a)) (iterate_kvec_loop (\<lambda>v a. a) p n skip acc)"
proof (induction "\<lambda>(v::chunk) (a::'a). a" p n skip acc rule: iterate_kvec_loop.induct)
  case (1 n skip acc)
  then show ?case by simp
next
  case (2 s0 p n skip acc)
  show ?case
    apply (subst iterate_iovec_loop.simps(2))
    apply (subst iterate_kvec_loop.simps(2))
    using 2
    apply (auto simp add: Let_def simp del: iterate_iovec_loop.simps iterate_kvec_loop.simps split: list.splits)
    done
qed

lemma iterate_iovec_zero:
  "iterate_iovec (\<lambda>v a. (a, 0)) p n skip acc =
     map_option (\<lambda>(p', skip', a). (p', skip', 0, a)) (iterate_kvec (\<lambda>v a. a) p n skip acc)"
  by (simp add: iterate_iovec_def iterate_kvec_def iterate_iovec_loop_zero Let_def split: list.splits)

lemma iterate_and_advance_count:
  "iterate_and_advance i n I B K acc = Some (i', m, acc') \<Longrightarrow> count i' = count i - m"
proof (cases "count i = 0")
  case True
  assume "iterate_and_advance i n I B K acc = Some (i', m, acc')"
  then show ?thesis using True by (auto simp add: iterate_and_advance_def Let_def word_gt_0 split: if_splits)
next
  case False
  assume a: "iterate_and_advance i n I B K acc = Some (i', m, acc')"
  show ?thesis
  proof (cases "itype i")
    case ITER_IOVEC
    then show ?thesis using a False
      by (auto simp add: iterate_and_advance_def Let_def split: option.splits list.splits)
  next
    case ITER_KVEC
    then show ?thesis using a False
      by (auto simp add: iterate_and_advance_def Let_def split: option.splits list.splits)
  next
    case ITER_BVEC
    then show ?thesis using a False
      by (auto simp add: iterate_and_advance_def Let_def split: option.splits)
  next
    case ITER_PIPE
    then show ?thesis using a False
      by (auto simp add: iterate_and_advance_def Let_def split: option.splits list.splits)
  next
    case ITER_DISCARD
    then show ?thesis using a False
      by (auto simp add: iterate_and_advance_def Let_def)
  qed
qed

lemma walk_wf_after:
  assumes "walk_wf p skip cnt" and "walk_wf p' skip' 0"
    and "segs_bytes p' - unat skip' = segs_bytes p - unat skip - unat m" and "m \<le> cnt"
  shows "walk_wf p' skip' (cnt - m)"
proof -
  have "unat (cnt - m) = unat cnt - unat m" using assms(4) by (simp add: unat_sub)
  moreover have "unat skip' \<le> segs_bytes p'" using assms(2) by (simp add: walk_wf_def)
  moreover have "unat cnt + unat skip \<le> segs_bytes p" using assms(1) by (simp add: walk_wf_def)
  ultimately have "unat (cnt - m) + unat skip' \<le> segs_bytes p'" using assms(3) by linarith
  then show ?thesis using assms(2) by (simp add: walk_wf_def)
qed

lemma walk_wf_weaken: "walk_wf p skip cnt \<Longrightarrow> m \<le> cnt \<Longrightarrow> walk_wf p skip m"
  by (auto simp add: walk_wf_def word_le_nat_alt)

lemma walk_wf_nonempty: "walk_wf p skip cnt \<Longrightarrow> cnt \<noteq> 0 \<Longrightarrow> p \<noteq> []"
  by (auto simp add: walk_wf_def unat_eq_0)

lemma iterate_and_advance_bvec_wf:
  assumes "iter_wf i" and "itype i = ITER_BVEC"
  shows "\<exists>i' acc'. iterate_and_advance i n I B K acc = Some (i', min n (count i), acc') \<and>
           iter_wf i' \<and> itype i' = ITER_BVEC"
proof (cases "count i = 0")
  case True
  then show ?thesis using assms by (simp add: iterate_and_advance_def Let_def min_def word_gt_0)
next
  case False
  define m where "m = (if count i < n then count i else n)"
  have m: "m \<le> count i" "m = min n (count i)" by (auto simp add: m_def min_def)
  from assms have w: "walk_wf (segs i) (iov_offset i) (count i)" by (simp add: iter_wf_def)
  from iterate_bvec_wf [OF walk_wf_weaken [OF w m(1)], of B acc]
  obtain p' skip' acc' where r: "iterate_bvec B (segs i) m (iov_offset i) acc = Some (p', skip', acc')"
    "walk_wf p' skip' 0" "segs_bytes p' - unat skip' = segs_bytes (segs i) - unat (iov_offset i) - unat m"
    by blast
  have "walk_wf p' skip' (count i - m)" using walk_wf_after [OF w r(2) r(3) m(1)] .
  then show ?thesis using False assms(2) r(1) m(2)
    by (simp add: iterate_and_advance_def Let_def m_def iter_wf_def)
qed

lemma iterate_and_advance_kvec_wf:
  assumes "iter_wf i" and "itype i = ITER_KVEC"
  shows "\<exists>i' acc'. iterate_and_advance i n I B K acc = Some (i', min n (count i), acc') \<and>
           iter_wf i' \<and> itype i' = ITER_KVEC"
proof (cases "count i = 0")
  case True
  then show ?thesis using assms by (simp add: iterate_and_advance_def Let_def min_def word_gt_0)
next
  case False
  define m where "m = (if count i < n then count i else n)"
  have m: "m \<le> count i" "m = min n (count i)" by (auto simp add: m_def min_def)
  from assms have w: "walk_wf (segs i) (iov_offset i) (count i)" by (simp add: iter_wf_def)
  have ne: "segs i \<noteq> []" using walk_wf_nonempty [OF w False] .
  from iterate_kvec_wf [OF walk_wf_weaken [OF w m(1)] ne, of K acc]
  obtain p' skip' acc' where r: "iterate_kvec K (segs i) m (iov_offset i) acc = Some (p', skip', acc')"
    "walk_wf p' skip' 0" "p' \<noteq> []"
    "segs_bytes p' - unat skip' = segs_bytes (segs i) - unat (iov_offset i) - unat m"
    by blast
  from r(3) obtain s q where p': "p' = s # q" by (cases p') auto
  define p2 where "p2 = (if skip' = seg_len s then q else p')"
  define skip2 where "skip2 = (if skip' = seg_len s then 0 else skip')"
  have w2: "walk_wf p2 skip2 0" using r(2) p'
    by (cases q) (auto simp add: p2_def skip2_def walk_wf_def)
  have b2: "segs_bytes p2 - unat skip2 = segs_bytes (segs i) - unat (iov_offset i) - unat m"
    using r(4) p' by (auto simp add: p2_def skip2_def)
  have "walk_wf p2 skip2 (count i - m)" using walk_wf_after [OF w w2 b2 m(1)] .
  then show ?thesis using False assms(2) r(1) m(2) p'
    by (auto simp add: iterate_and_advance_def Let_def m_def iter_wf_def p2_def skip2_def
        split: if_splits)
qed

lemma iterate_and_advance_discard_wf:
  assumes "itype i = ITER_DISCARD"
  shows "\<exists>i' acc'. iterate_and_advance i n I B K acc = Some (i', min n (count i), acc') \<and>
           iter_wf i' \<and> itype i' = ITER_DISCARD"
  using assms by (auto simp add: iterate_and_advance_def Let_def iter_wf_def min_def word_gt_0)


lemma iterate_and_advance_iovec_wf:
  assumes "iter_wf i" and "itype i = ITER_IOVEC"
  shows "\<exists>i'. iterate_and_advance i n (\<lambda>v a. (a, 0)) B K () = Some (i', min n (count i), ()) \<and>
           iter_wf i' \<and> itype i' = ITER_IOVEC"
proof (cases "count i = 0")
  case True
  then show ?thesis using assms by (simp add: iterate_and_advance_def Let_def min_def word_gt_0)
next
  case False
  define m where "m = (if count i < n then count i else n)"
  have m: "m \<le> count i" "m = min n (count i)" by (auto simp add: m_def min_def)
  from assms have w: "walk_wf (segs i) (iov_offset i) (count i)" by (simp add: iter_wf_def)
  have ne: "segs i \<noteq> []" using walk_wf_nonempty [OF w False] .
  from iterate_kvec_wf [OF walk_wf_weaken [OF w m(1)] ne, of "\<lambda>v a. a" "()"]
  obtain p' skip' where r: "iterate_kvec (\<lambda>v a. a) (segs i) m (iov_offset i) () = Some (p', skip', ())"
    "walk_wf p' skip' 0" "p' \<noteq> []"
    "segs_bytes p' - unat skip' = segs_bytes (segs i) - unat (iov_offset i) - unat m"
    by auto
  then have r1: "iterate_iovec (\<lambda>v a. (a, 0)) (segs i) m (iov_offset i) () = Some (p', skip', 0, ())"
    using iterate_iovec_zero [of "segs i" m "iov_offset i" "()"] by simp
  from r(3) obtain s q where p': "p' = s # q" by (cases p') auto
  define p2 where "p2 = (if skip' = seg_len s then q else p')"
  define skip2 where "skip2 = (if skip' = seg_len s then 0 else skip')"
  have w2: "walk_wf p2 skip2 0" using r(2) p'
    by (cases q) (auto simp add: p2_def skip2_def walk_wf_def)
  have b2: "segs_bytes p2 - unat skip2 = segs_bytes (segs i) - unat (iov_offset i) - unat m"
    using r(4) p' by (auto simp add: p2_def skip2_def)
  have "walk_wf p2 skip2 (count i - m)" using walk_wf_after [OF w w2 b2 m(1)] .
  then show ?thesis using False assms(2) r1 m(2) p'
    by (auto simp add: iterate_and_advance_def Let_def m_def iter_wf_def p2_def skip2_def
        split: if_splits)
qed

lemma copy_from_iter_raw_count:
  "copy_from_iter_raw U dst to n i = Some (dst', i', m) \<Longrightarrow> count i' = count i - m"
  by (auto simp add: copy_from_iter_raw_def split: if_splits option.splits
      dest: iterate_and_advance_count)

lemma copy_from_iter_raw_wf:
  assumes "iter_wf i" and "itype i \<noteq> ITER_IOVEC"
  shows "\<exists>dst' i'. copy_from_iter_raw U dst to n i = Some (dst', i', min n (count i)) \<and>
           iter_wf i' \<and> itype i' = itype i \<and> count i' = count i - min n (count i)"
proof -
  from assms have "itype i = ITER_BVEC \<or> itype i = ITER_KVEC \<or> itype i = ITER_DISCARD"
    by (cases "itype i") (auto simp add: iter_wf_def)
  then obtain i' acc' where r:
    "iterate_and_advance i n (copyin U) copy_chunk copy_chunk (dst, to) = Some (i', min n (count i), acc')"
    "iter_wf i'" "itype i' = itype i"
    using iterate_and_advance_bvec_wf [OF assms(1), of n "copyin U" copy_chunk copy_chunk "(dst, to)"]
      iterate_and_advance_kvec_wf [OF assms(1), of n "copyin U" copy_chunk copy_chunk "(dst, to)"]
      iterate_and_advance_discard_wf [of i n "copyin U" copy_chunk copy_chunk "(dst, to)"]
    by auto
  have "count i' = count i - min n (count i)" using iterate_and_advance_count [OF r(1)] .
  moreover have "itype i \<noteq> ITER_PIPE" using assms(1) by (auto simp add: iter_wf_def)
  ultimately show ?thesis using r by (cases acc') (simp add: copy_from_iter_raw_def)
qed

lemma iov_iter_advance_wf:
  assumes "iter_wf i" and "n \<le> count i"
  shows "\<exists>i'. iov_iter_advance i n = Some i' \<and> count i' = count i - n \<and> iter_wf i' \<and>
           itype i' = itype i"
proof (cases "itype i")
  case ITER_IOVEC
  from iterate_and_advance_iovec_wf [OF assms(1) this, of n "\<lambda>v a. a" "\<lambda>v a. a"]
  obtain i' where r: "iterate_and_advance i n (\<lambda>v a. (a, 0)) (\<lambda>v a. a) (\<lambda>v a. a) () =
      Some (i', min n (count i), ())" "iter_wf i'" "itype i' = ITER_IOVEC"
    by auto
  have "count i' = count i - min n (count i)" using iterate_and_advance_count [OF r(1)] .
  then show ?thesis using r assms(2) ITER_IOVEC by (simp add: iov_iter_advance_def min_def)
next
  case ITER_KVEC
  from iterate_and_advance_kvec_wf [OF assms(1) this, of n "\<lambda>v a. (a, 0)" "\<lambda>v a. a" "\<lambda>v a. a" "()"]
  obtain i' where r: "iterate_and_advance i n (\<lambda>v a. (a, 0)) (\<lambda>v a. a) (\<lambda>v a. a) () =
      Some (i', min n (count i), ())" "iter_wf i'" "itype i' = ITER_KVEC"
    by auto
  have "count i' = count i - min n (count i)" using iterate_and_advance_count [OF r(1)] .
  then show ?thesis using r assms(2) ITER_KVEC by (simp add: iov_iter_advance_def min_def)
next
  case ITER_BVEC
  from iterate_and_advance_bvec_wf [OF assms(1) this, of n "\<lambda>v a. (a, 0)" "\<lambda>v a. a" "\<lambda>v a. a" "()"]
  obtain i' where r: "iterate_and_advance i n (\<lambda>v a. (a, 0)) (\<lambda>v a. a) (\<lambda>v a. a) () =
      Some (i', min n (count i), ())" "iter_wf i'" "itype i' = ITER_BVEC"
    by auto
  have "count i' = count i - min n (count i)" using iterate_and_advance_count [OF r(1)] .
  then show ?thesis using r assms(2) ITER_BVEC by (simp add: iov_iter_advance_def min_def)
next
  case ITER_PIPE
  then show ?thesis using assms(1) by (simp add: iter_wf_def)
next
  case ITER_DISCARD
  then show ?thesis by (simp add: iov_iter_advance_def iter_wf_def)
qed

subsection \<open>Copies out of user segments\<close>

lemma int_to_size_t_small: "x < 2 ^ 31 \<Longrightarrow> int_to_size_t x = x"
proof -
  assume a: "x < 2 ^ 31"
  then have "x AND mask 31 = x" by (rule less_mask_eq)
  then have t: "take_bit 31 x = x" by (simp add: take_bit_eq_mask)
  have nb: "\<not> bit x n" if "31 \<le> n" for n
  proof
    assume "bit x n"
    then have "bit (take_bit 31 x) n" using t by simp
    then show False using that by (simp add: bit_take_bit_iff)
  qed
  show ?thesis
    unfolding int_to_size_t_def
    by (rule bit_word_eqI) (auto simp add: bit_simps nb min_def dest: bit_imp_le_length)
qed

text \<open>A STEP on user memory that leaves at most the chunk it was given, for chunks of at
  most \<open>B\<close> bytes.\<close>

lemma iterate_iovec_loop_total:
  assumes step: "\<And>v a. snd (snd v) \<le> B \<Longrightarrow> snd (STEP v a) \<le> snd (snd v)"
  shows "n \<le> B \<Longrightarrow> (left = 0 \<longrightarrow> unat n \<le> segs_bytes p) \<Longrightarrow>
   \<exists>p' skip' n' acc'. iterate_iovec_loop STEP (s0 # p) left n skip acc = Some (p', skip', n', acc') \<and>
      p' \<noteq> [] \<and> n' \<le> n"
proof (induction p arbitrary: s0 left n skip acc)
  case Nil
  then show ?case by (auto simp add: unat_eq_0)
next
  case (Cons s p)
  show ?case
  proof (cases "left = 0 \<and> n \<noteq> 0")
    case False
    then show ?thesis by auto
  next
    case True
    then have l0: "left = 0" and n0: "n \<noteq> 0" by simp_all
    from Cons.prems l0 have b: "unat n \<le> unat (seg_len s) + segs_bytes p" by simp
    define len where "len = min n (seg_len s)"
    show ?thesis
    proof (cases "len = 0")
      case True
      then have "seg_len s = 0" using n0 by (simp add: len_def min_def split: if_splits)
      then have "left = 0 \<longrightarrow> unat n \<le> segs_bytes p" using b by simp
      from Cons.IH [OF Cons.prems(1) this, of s skip acc] True l0 n0 show ?thesis
        by (simp add: len_def Let_def)
    next
      case False
      obtain acc1 left1 where st: "STEP (seg_base s, 0, len) acc = (acc1, left1)" by (cases "STEP (seg_base s, 0, len) acc")
      have lenn: "len \<le> n" by (simp add: len_def)
      then have "len \<le> B" using Cons.prems(1) by simp
      then have ll: "left1 \<le> len" using step [of "(seg_base s, 0, len)" acc] st by simp
      have ul: "unat (len - left1) = unat len - unat left1" using ll by (simp add: unat_sub)
      have "unat len - unat left1 \<le> unat n" using lenn by (simp add: word_le_nat_alt)
      then have dle: "len - left1 \<le> n" using ul by (simp add: word_le_nat_alt)
      then have un1: "unat (n - (len - left1)) = unat n - (unat len - unat left1)"
        using ul by (simp add: unat_sub)
      have n1le: "n - (len - left1) \<le> n" using un1 by (simp add: word_le_nat_alt)
      then have n1B: "n - (len - left1) \<le> B" using Cons.prems(1) by simp
      have um: "unat len = min (unat n) (unat (seg_len s))"
        by (simp add: len_def min_def word_le_nat_alt)
      have pre: "left1 = 0 \<longrightarrow> unat (n - (len - left1)) \<le> segs_bytes p"
        using un1 um b by auto
      from Cons.IH [OF n1B pre, of s "len - left1" acc1]
      obtain p' skip' n' acc' where r:
        "iterate_iovec_loop STEP (s # p) left1 (n - (len - left1)) (len - left1) acc1 = Some (p', skip', n', acc')"
        "p' \<noteq> []" "n' \<le> n - (len - left1)"
        by blast
      have "n' \<le> n" using r(3) n1le by simp
      then show ?thesis using r(1,2) l0 n0 False st by (simp add: len_def Let_def)
    qed
  qed
qed

lemma iterate_iovec_total:
  assumes step: "\<And>v a. snd (snd v) \<le> B \<Longrightarrow> snd (STEP v a) \<le> snd (snd v)"
    and "walk_wf p skip n" and "p \<noteq> []" and "n \<le> B"
  shows "\<exists>p' skip' n' acc'. iterate_iovec STEP p n skip acc = Some (p', skip', n', acc') \<and>
      p' \<noteq> [] \<and> n' \<le> n"
proof -
  from assms(3) obtain s q where p: "p = s # q" by (cases p) auto
  from assms(2) p have le: "skip \<le> seg_len s" and b: "unat n + unat skip \<le> unat (seg_len s) + segs_bytes q"
    by (simp_all add: walk_wf_def)
  have le': "unat skip \<le> unat (seg_len s)" using le by (simp add: word_le_nat_alt)
  have u: "unat (seg_len s - skip) = unat (seg_len s) - unat skip" using le by (simp add: unat_sub)
  define len where "len = min n (seg_len s - skip)"
  have um: "unat len = min (unat n) (unat (seg_len s) - unat skip)"
    using u by (simp add: len_def min_def word_le_nat_alt)
  have lenn: "len \<le> n" by (simp add: len_def)
  show ?thesis
  proof (cases "len = 0")
    case True
    then have "unat len = 0" by simp
    then have "unat n \<le> segs_bytes q" using um b le' by (auto simp add: min_def split: if_splits)
    then have pre: "(0::size_t) = 0 \<longrightarrow> unat n \<le> segs_bytes q" by simp
    from iterate_iovec_loop_total [of B STEP, OF step assms(4) pre, of s skip acc] True p
    show ?thesis by (simp add: iterate_iovec_def len_def Let_def)
  next
    case False
    obtain acc1 left1 where st: "STEP (seg_base s, unat skip, len) acc = (acc1, left1)"
      by (cases "STEP (seg_base s, unat skip, len) acc")
    have "len \<le> B" using lenn assms(4) by simp
    then have ll: "left1 \<le> len" using step [of "(seg_base s, unat skip, len)" acc] st by simp
    have ul: "unat (len - left1) = unat len - unat left1" using ll by (simp add: unat_sub)
    have "unat len - unat left1 \<le> unat n" using lenn by (simp add: word_le_nat_alt)
    then have dle: "len - left1 \<le> n" using ul by (simp add: word_le_nat_alt)
    then have un1: "unat (n - (len - left1)) = unat n - (unat len - unat left1)"
      using ul by (simp add: unat_sub)
    have n1le: "n - (len - left1) \<le> n" using un1 by (simp add: word_le_nat_alt)
    then have n1B: "n - (len - left1) \<le> B" using assms(4) by simp
    have pre: "left1 = 0 \<longrightarrow> unat (n - (len - left1)) \<le> segs_bytes q"
      using un1 um b le' by auto
    from iterate_iovec_loop_total [of B STEP, OF step n1B pre, of s "skip + (len - left1)" acc1]
    obtain p' skip' n' acc' where r:
      "iterate_iovec_loop STEP (s # q) left1 (n - (len - left1)) (skip + (len - left1)) acc1 =
         Some (p', skip', n', acc')" "p' \<noteq> []" "n' \<le> n - (len - left1)"
      by blast
    have "n' \<le> n" using r(3) n1le by simp
    then show ?thesis using r(1,2) False st p by (simp add: iterate_iovec_def len_def Let_def)
  qed
qed

lemma copyin_left:
  assumes "\<forall>v. raw_copy_from_user U v \<le> snd (snd v)" and "B < 2 ^ 31" and "snd (snd v) \<le> B"
  shows "snd (copyin U v a) \<le> snd (snd v)"
proof -
  obtain src s len where v: "v = (src, s, len)" by (cases v)
  obtain dst to where a: "a = (dst, to)" by (cases a)
  have l: "len < 2 ^ 31" using assms(2,3) v by simp
  have r: "raw_copy_from_user U v \<le> len" using assms(1) v by (metis snd_conv)
  then have "raw_copy_from_user U v < 2 ^ 31" using l by simp
  then show ?thesis using v a l r by (simp add: copyin_def Let_def int_to_size_t_small)
qed

lemma copy_from_iter_raw_iovec:
  assumes "iter_wf i" and "itype i = ITER_IOVEC"
    and "\<forall>v. raw_copy_from_user U v \<le> snd (snd v)" and "n < 2 ^ 31"
  shows "\<exists>dst' i' m. copy_from_iter_raw U dst to n i = Some (dst', i', m) \<and> m \<le> min n (count i) \<and>
           count i' = count i - m"
proof (cases "count i = 0")
  case True
  then show ?thesis using assms(2)
    by (auto simp add: copy_from_iter_raw_def iterate_and_advance_def Let_def word_gt_0)
next
  case False
  define m where "m = (if count i < n then count i else n)"
  have m: "m \<le> count i" "m = min n (count i)" "m \<le> n" by (auto simp add: m_def min_def)
  have mB: "m < 2 ^ 31" using m(3) assms(4) by simp
  from assms have w: "walk_wf (segs i) (iov_offset i) (count i)" by (simp add: iter_wf_def)
  have ne: "segs i \<noteq> []" using walk_wf_nonempty [OF w False] .
  have step: "\<And>v a. snd (snd v) \<le> m \<Longrightarrow> snd (copyin U v a) \<le> snd (snd v)"
    using copyin_left [OF assms(3) mB] by blast
  from iterate_iovec_total [of m "copyin U", OF step walk_wf_weaken [OF w m(1)] ne, of "(dst, to)"]
  obtain p' skip' n' acc' where r:
    "iterate_iovec (copyin U) (segs i) m (iov_offset i) (dst, to) = Some (p', skip', n', acc')"
    "p' \<noteq> []" "n' \<le> m"
    by auto
  from r(2) obtain s q where p': "p' = s # q" by (cases p') auto
  have "unat (m - n') \<le> unat m" using r(3) by (simp add: unat_sub)
  then have le: "m - n' \<le> m" by (simp add: word_le_nat_alt)
  obtain d t where acc': "acc' = (d, t)" by (cases acc')
  show ?thesis using False assms(2) r(1) p' le m(2) acc'
    by (simp add: copy_from_iter_raw_def iterate_and_advance_def Let_def m_def)
qed

section \<open>The copy loop of the write\<close>

lemma block_size_val: "OSDS_BLOCK_SIZE = 65536"
  by (simp add: OSDS_BLOCK_SIZE_def OSDS_BLOCK_SHIFT_def)

lemma block_mask_val: "NOT OSDS_BLOCK_MASK = mask 16"
  by (simp add: OSDS_BLOCK_MASK_def block_size_val mask_eq_exp_minus_1)



lemma lookup_insert_same:
  "lookup_object_block_by_off bs k = None \<Longrightarrow> b_off blk = k \<Longrightarrow>
   lookup_object_block_by_off (insert_object_block_by_off bs blk) k = Some blk"
  by (induction bs) (auto split: if_splits)

lemma lookup_store_some:
  "lookup_object_block_by_off bs k = Some b \<Longrightarrow>
   \<exists>b'. lookup_object_block_by_off (store_block_page bs k' pg) k = Some b'"
  by (induction bs) (auto split: if_splits)

lemma next_dst_cases:
  assumes "next_dst st obj pblk dst_off dst_len = (ret, st1, obj1, blk1, dst_len1)"
  shows "ret = - ENOMEM \<or>
         (ret = 0 \<and> blk1 = Some (ALIGN_DOWN dst_off OSDS_BLOCK_SIZE) \<and>
          (\<exists>b. lookup_object_block_by_off (o_blocks obj1) (ALIGN_DOWN dst_off OSDS_BLOCK_SIZE) = Some b) \<and>
          dst_len1 = OSDS_BLOCK_SIZE - (dst_off AND NOT OSDS_BLOCK_MASK) \<and>
          o_size obj1 = o_size obj \<and> o_mtime obj1 = o_mtime obj \<and> o_hoid obj1 = o_hoid obj \<and>
          uacc st1 = uacc st)"
  using assms
  by (auto simp add: next_dst_def Let_def alloc_def lookup_insert_same
      split: option.splits prod.splits bool.splits list.splits)

lemma write_iter_Inr:
  assumes "write_iter w = Some (Inr (ret, w'))"
  shows "ret = - ENOMEM \<and> w_obj w' = w_obj w \<and> w_dst_off w' = w_dst_off w \<and>
         w_len_write w' = w_len_write w \<and> w_modified w' = w_modified w \<and> w_cur w' = w_cur w"
proof (cases "w_dst_len w = 0")
  case True
  obtain r st1 obj1 blk1 dl where nd:
    "next_dst (w_st w) (w_obj w) (w_blk w) (w_dst_off w) (w_dst_len w) = (r, st1, obj1, blk1, dl)"
    by (metis prod_cases5)
  from next_dst_cases [OF nd] assms True nd have "r = - ENOMEM"
    by (auto simp add: write_iter_def Let_def split: option.splits prod.splits)
  moreover from nd this have "obj1 = w_obj w"
    by (auto simp add: next_dst_def Let_def alloc_def ENOMEM_def
        split: option.splits prod.splits bool.splits list.splits)
  ultimately show ?thesis using assms True nd
    by (auto simp add: write_iter_def Let_def ENOMEM_def split: option.splits prod.splits)
next
  case False
  then show ?thesis using assms
    by (auto simp add: write_iter_def Let_def split: option.splits prod.splits)
qed

lemma write_iter_Inl:
  assumes "write_iter w = Some (Inl w')"
  shows "w_len_write w' = w_len_write w - chunk_len w \<and>
         w_dst_off w' = w_dst_off w + chunk_len w \<and>
         w_modified w' \<and>
         o_size (w_obj w') = o_size (w_obj w) \<and> o_mtime (w_obj w') = o_mtime (w_obj w) \<and>
         o_hoid (w_obj w') = o_hoid (w_obj w) \<and>
         write_inv w' \<and> uacc (w_st w') = uacc (w_st w)"
proof -
  obtain r st1 obj1 blk1 dl where nd:
    "(if w_dst_len w = 0
      then next_dst (w_st w) (w_obj w) (w_blk w) (w_dst_off w) (w_dst_len w)
      else (0, w_st w, w_obj w, w_blk w, w_dst_len w)) = (r, st1, obj1, blk1, dl)"
    by (metis prod_cases5)
  have r0: "r = 0" using assms nd by (auto simp add: write_iter_def Let_def split: if_splits)
  have dl: "dl = (if w_dst_len w = 0 then OSDS_BLOCK_SIZE - (w_dst_off w AND NOT OSDS_BLOCK_MASK)
                  else w_dst_len w)"
    and keep: "o_size obj1 = o_size (w_obj w)" "o_mtime obj1 = o_mtime (w_obj w)"
      "o_hoid obj1 = o_hoid (w_obj w)" "uacc st1 = uacc (w_st w)"
  proof -
    show "dl = (if w_dst_len w = 0 then OSDS_BLOCK_SIZE - (w_dst_off w AND NOT OSDS_BLOCK_MASK)
                  else w_dst_len w)"
      using nd r0 next_dst_cases [of "w_st w" "w_obj w" "w_blk w" "w_dst_off w" "w_dst_len w" r st1 obj1 blk1 dl]
      by (auto simp add: ENOMEM_def split: if_splits)
    show "o_size obj1 = o_size (w_obj w)" "o_mtime obj1 = o_mtime (w_obj w)"
      "o_hoid obj1 = o_hoid (w_obj w)" "uacc st1 = uacc (w_st w)"
      using nd r0 next_dst_cases [of "w_st w" "w_obj w" "w_blk w" "w_dst_off w" "w_dst_len w" r st1 obj1 blk1 dl]
      by (auto simp add: ENOMEM_def split: if_splits)
  qed
  from assms nd r0 obtain k blk pg it len2 where
    k: "blk1 = Some k" "lookup_object_block_by_off (o_blocks obj1) k = Some blk"
    and w': "w' = w\<lparr>w_st := st1,
                    w_obj := obj1\<lparr>o_blocks := store_block_page (o_blocks obj1) k pg\<rparr>,
                    w_blk := blk1,
                    w_dst_len := dl - chunk_len w,
                    w_dst_off := w_dst_off w + chunk_len w,
                    w_len_write := w_len_write w - chunk_len w,
                    w_modified := True,
                    w_cur := ceph_msg_data_cursor_advance ((w_cur w)\<lparr>iter := it\<rparr>) (chunk_len w)\<rparr>"
    unfolding write_iter_def chunk_len_def dl
    by (fastforce simp add: Let_def ceph_msg_data_cursor_next_def split: option.splits prod.splits if_splits)
  have "write_inv w'" using k lookup_store_some [OF k(2), of k pg]
    by (auto simp add: w' write_inv_def)
  then show ?thesis using keep by (simp add: w')
qed






lemma ceph_msg_data_cursor_init_wf:
  "walk_wf segs0 0 n \<Longrightarrow> iter_wf (iter (ceph_msg_data_cursor_init segs0 n)) \<and>
     itype (iter (ceph_msg_data_cursor_init segs0 n)) = ITER_BVEC \<and>
     count (iter (ceph_msg_data_cursor_init segs0 n)) = n"
  by (simp add: ceph_msg_data_cursor_init_def iov_iter_bvec_def iter_wf_def)


section \<open>Invariants of the write\<close>

lemma sint64:
  "sint (w :: 64 word) = (if uint w < 2 ^ 63 then uint w else uint w - 2 ^ 64)"
proof -
  have a: "sint w = take_bit 64 (uint w + 2 ^ 63) - 2 ^ 63"
    by (simp add: sint_uint signed_take_bit_eq_take_bit_shift)
  have b: "0 \<le> uint w" "uint w < 2 ^ 64" using uint_lt2p [of w] by simp_all
  show ?thesis
  proof (cases "uint w < 2 ^ 63")
    case True
    then have "take_bit 64 (uint w + 2 ^ 63) = uint w + 2 ^ 63"
      using b by (simp add: take_bit_int_eq_self)
    then show ?thesis using a True by simp
  next
    case False
    have e: "uint w + 2 ^ 63 = (uint w - 2 ^ 63) + 2 ^ 64" by simp
    have "(uint w - 2 ^ 63 + 2 ^ 64) mod 2 ^ 64 = (uint w - 2 ^ 63) mod (2 ^ 64 :: int)"
      by (rule mod_add_self2)
    also have "\<dots> = uint w - 2 ^ 63" using False b by (simp add: mod_pos_pos_trivial)
    finally have "take_bit 64 (uint w + 2 ^ 63) = uint w - 2 ^ 63"
      unfolding take_bit_eq_mod e .
    then show ?thesis using a False by simp
  qed
qed

lemma sint_inj64: "sint (a :: 64 word) = sint b \<Longrightarrow> a = b"
  by (rule signed_word_eqI) simp

lemma lookup_None_iff:
  "lookup_object_block_by_off bs k = None \<longleftrightarrow> k \<notin> set (map b_off bs)"
  by (induction bs) auto

lemma lookup_Some_mem:
  "lookup_object_block_by_off bs k = Some b \<Longrightarrow> b \<in> set bs \<and> b_off b = k"
  by (induction bs) (auto split: if_splits)

lemma set_insert_block:
  "set (map b_off (insert_object_block_by_off bs blk)) = insert (b_off blk) (set (map b_off bs))"
  by (induction bs) auto

lemma sorted_insert_block:
  "sorted_wrt (\<lambda>a b. sint a < sint b) (map b_off bs) \<Longrightarrow> b_off blk \<notin> set (map b_off bs) \<Longrightarrow>
   sorted_wrt (\<lambda>a b. sint a < sint b) (map b_off (insert_object_block_by_off bs blk))"
proof (induction bs)
  case Nil
  then show ?case by simp
next
  case (Cons b bs)
  show ?case
  proof (cases "sint (b_off blk) < sint (b_off b)")
    case True
    then show ?thesis using Cons.prems by (auto simp add: )
  next
    case False
    have ne: "sint (b_off b) \<noteq> sint (b_off blk)" using Cons.prems(2) sint_inj64 by auto
    then have lt: "sint (b_off b) < sint (b_off blk)" using False by simp
    have "sorted_wrt (\<lambda>a b. sint a < sint b) (map b_off (insert_object_block_by_off bs blk))"
      using Cons by simp
    moreover have "\<forall>k \<in> set (map b_off (insert_object_block_by_off bs blk)). sint (b_off b) < sint k"
      using Cons.prems(1) lt by (auto simp add: set_insert_block simp del: set_map)
    ultimately show ?thesis using False by simp
  qed
qed

lemma map_b_off_store: "map b_off (store_block_page bs k pg) = map b_off bs"
  by (induction bs) auto

lemma blocks_inv_store: "blocks_inv bs \<Longrightarrow> blocks_inv (store_block_page bs k pg)"
  by (simp add: blocks_inv_def map_b_off_store)

lemma align_down_aligned: "ALIGN_DOWN x OSDS_BLOCK_SIZE AND NOT OSDS_BLOCK_MASK = 0"
  by (simp add: ALIGN_DOWN_def OSDS_BLOCK_MASK_def and.assoc)

lemma blocks_inv_insert:
  "blocks_inv bs \<Longrightarrow> lookup_object_block_by_off bs k = None \<Longrightarrow> k AND NOT OSDS_BLOCK_MASK = 0 \<Longrightarrow>
   blocks_inv (insert_object_block_by_off bs \<lparr>b_off = k, b_page = pg\<rparr>)"
  using sorted_insert_block [of bs "\<lparr>b_off = k, b_page = pg\<rparr>"]
  by (auto simp add: blocks_inv_def lookup_None_iff set_insert_block simp del: set_map)

lemma next_dst_server:
  "next_dst st obj pblk dst_off dst_len = (ret, st1, obj1, blk1, dst_len1) \<Longrightarrow>
   st1 = st\<lparr>alloc_plan := alloc_plan st1\<rparr>"
  by (auto simp add: next_dst_def Let_def alloc_def
      split: option.splits prod.splits bool.splits list.splits)

lemma next_dst_blocks_inv:
  "next_dst st obj pblk dst_off dst_len = (ret, st1, obj1, blk1, dst_len1) \<Longrightarrow>
   blocks_inv (o_blocks obj) \<Longrightarrow> blocks_inv (o_blocks obj1)"
  by (auto simp add: next_dst_def Let_def alloc_def blocks_inv_insert align_down_aligned
      split: option.splits prod.splits bool.splits list.splits)

lemma write_loop_rule:
  assumes run: "write_loop w = Some r" and init: "I w"
    and step: "\<And>w w'. I w \<Longrightarrow> w_len_write w \<noteq> 0 \<Longrightarrow> write_iter w = Some (Inl w') \<Longrightarrow> I w'"
    and fail: "\<And>w ret w'. I w \<Longrightarrow> w_len_write w \<noteq> 0 \<Longrightarrow>
                 write_iter w = Some (Inr (ret, w')) \<Longrightarrow> I w'"
  shows "I (snd r) \<and> (fst r = 0 \<longrightarrow> w_len_write (snd r) = 0) \<and> (fst r \<noteq> 0 \<longrightarrow> fst r = - ENOMEM)"
proof -
  have "I w \<longrightarrow> I (snd r) \<and> (fst r = 0 \<longrightarrow> w_len_write (snd r) = 0) \<and>
          (fst r \<noteq> 0 \<longrightarrow> fst r = - ENOMEM)"
  proof (rule write_loop.raw_induct
      [where P = "\<lambda>w r. I w \<longrightarrow> I (snd r) \<and> (fst r = 0 \<longrightarrow> w_len_write (snd r) = 0) \<and>
          (fst r \<noteq> 0 \<longrightarrow> fst r = - ENOMEM)", OF _ run])
    fix loop :: "write_state \<Rightarrow> (int \<times> write_state) option" and w r
    assume IH: "\<And>x y. loop x = Some y \<Longrightarrow>
        I x \<longrightarrow> I (snd y) \<and> (fst y = 0 \<longrightarrow> w_len_write (snd y) = 0) \<and>
          (fst y \<noteq> 0 \<longrightarrow> fst y = - ENOMEM)"
      and body: "(if w_len_write w = 0 then Some (0, w)
        else case write_iter w of None \<Rightarrow> None | Some (Inl w') \<Rightarrow> loop w'
             | Some (Inr r) \<Rightarrow> Some r) = Some r"
    show "I w \<longrightarrow> I (snd r) \<and> (fst r = 0 \<longrightarrow> w_len_write (snd r) = 0) \<and>
          (fst r \<noteq> 0 \<longrightarrow> fst r = - ENOMEM)"
    proof
      assume Iw: "I w"
      show "I (snd r) \<and> (fst r = 0 \<longrightarrow> w_len_write (snd r) = 0) \<and>
          (fst r \<noteq> 0 \<longrightarrow> fst r = - ENOMEM)"
      proof (cases "w_len_write w = 0")
        case True
        then show ?thesis using body Iw by auto
      next
        case nz: False
        show ?thesis
        proof (cases "write_iter w")
          case None
          then show ?thesis using body nz by simp
        next
          case (Some a)
          show ?thesis
          proof (cases a)
            case (Inl w')
            then have wi: "write_iter w = Some (Inl w')" using Some by simp
            have "I w'" using step [OF Iw nz wi] .
            moreover have "loop w' = Some r" using body wi nz by simp
            ultimately show ?thesis using IH by blast
          next
            case (Inr b)
            then have wi: "write_iter w = Some (Inr (fst b, snd b))" using Some by simp
            have "I (snd b)" using fail [OF Iw nz wi] .
            moreover have "fst b = - ENOMEM" using write_iter_Inr [OF wi] by simp
            moreover have "r = b" using body Some Inr nz by simp
            ultimately show ?thesis by (simp add: ENOMEM_def)
          qed
        qed
      qed
    qed
  qed
  then show ?thesis using init by blast
qed

lemma write_iter_Inl_blocks:
  assumes "write_iter w = Some (Inl w')"
  shows "(blocks_inv (o_blocks (w_obj w)) \<longrightarrow> blocks_inv (o_blocks (w_obj w'))) \<and>
         w_st w' = (w_st w)\<lparr>alloc_plan := alloc_plan (w_st w')\<rparr>"
proof -
  obtain r st1 obj1 blk1 dl where nd:
    "(if w_dst_len w = 0
      then next_dst (w_st w) (w_obj w) (w_blk w) (w_dst_off w) (w_dst_len w)
      else (0, w_st w, w_obj w, w_blk w, w_dst_len w)) = (r, st1, obj1, blk1, dl)"
    by (metis prod_cases5)
  have a: "blocks_inv (o_blocks (w_obj w)) \<longrightarrow> blocks_inv (o_blocks obj1)"
    using nd next_dst_blocks_inv [of "w_st w" "w_obj w" "w_blk w" "w_dst_off w" "w_dst_len w" r st1 obj1 blk1 dl]
    by (auto split: if_splits)
  have b: "st1 = (w_st w)\<lparr>alloc_plan := alloc_plan st1\<rparr>"
    using nd next_dst_server [of "w_st w" "w_obj w" "w_blk w" "w_dst_off w" "w_dst_len w" r st1 obj1 blk1 dl]
    by (auto split: if_splits)
  from assms nd obtain k pg where
    "w_st w' = st1" "o_blocks (w_obj w') = store_block_page (o_blocks obj1) k pg"
    unfolding write_iter_def
    by (fastforce simp add: Let_def split: option.splits prod.splits if_splits)
  then show ?thesis using a b blocks_inv_store by auto
qed

lemma write_iter_Inr_server:
  assumes "write_iter w = Some (Inr (ret, w'))"
  shows "w_st w' = (w_st w)\<lparr>alloc_plan := alloc_plan (w_st w')\<rparr>"
proof -
  obtain r st1 obj1 blk1 dl where nd:
    "(if w_dst_len w = 0
      then next_dst (w_st w) (w_obj w) (w_blk w) (w_dst_off w) (w_dst_len w)
      else (0, w_st w, w_obj w, w_blk w, w_dst_len w)) = (r, st1, obj1, blk1, dl)"
    by (metis prod_cases5)
  have b: "st1 = (w_st w)\<lparr>alloc_plan := alloc_plan st1\<rparr>"
    using nd next_dst_server [of "w_st w" "w_obj w" "w_blk w" "w_dst_off w" "w_dst_len w" r st1 obj1 blk1 dl]
    by (auto split: if_splits)
  from assms nd have "w_st w' = st1"
    unfolding write_iter_def
    by (auto simp add: Let_def split: option.splits prod.splits if_splits)
  then show ?thesis using b by simp
qed

lemma write_loop_facts:
  assumes run: "write_loop w = Some (ret, w')"
  shows "w_dst_off w' + w_len_write w' = w_dst_off w + w_len_write w \<and>
         o_size (w_obj w') = o_size (w_obj w) \<and> o_hoid (w_obj w') = o_hoid (w_obj w) \<and>
         (w_modified w' \<or> (w_len_write w' = w_len_write w \<and> o_mtime (w_obj w') = o_mtime (w_obj w)
             \<and> w_modified w' = w_modified w)) \<and>
         (blocks_inv (o_blocks (w_obj w)) \<longrightarrow> blocks_inv (o_blocks (w_obj w'))) \<and>
         s_objects (w_st w') = s_objects (w_st w) \<and>
         (ret = 0 \<longrightarrow> w_len_write w' = 0) \<and> (ret \<noteq> 0 \<longrightarrow> ret = - ENOMEM)"
proof -
  define I where "I = (\<lambda>x::write_state. w_dst_off x + w_len_write x = w_dst_off w + w_len_write w \<and>
         o_size (w_obj x) = o_size (w_obj w) \<and> o_hoid (w_obj x) = o_hoid (w_obj w) \<and>
         (w_modified x \<or> (w_len_write x = w_len_write w \<and> o_mtime (w_obj x) = o_mtime (w_obj w)
             \<and> w_modified x = w_modified w)) \<and>
         (blocks_inv (o_blocks (w_obj w)) \<longrightarrow> blocks_inv (o_blocks (w_obj x))) \<and>
         s_objects (w_st x) = s_objects (w_st w))"
  have init: "I w" by (simp add: I_def)
  have step: "\<And>x x'. I x \<Longrightarrow> w_len_write x \<noteq> 0 \<Longrightarrow> write_iter x = Some (Inl x') \<Longrightarrow> I x'"
  proof -
    fix x x' assume Ix: "I x" and wi: "write_iter x = Some (Inl x')"
    from write_iter_Inl [OF wi] write_iter_Inl_blocks [OF wi] Ix
    have "w_dst_off x' + w_len_write x' = w_dst_off w + w_len_write w"
      "o_size (w_obj x') = o_size (w_obj w)" "o_hoid (w_obj x') = o_hoid (w_obj w)" "w_modified x'"
      "blocks_inv (o_blocks (w_obj w)) \<longrightarrow> blocks_inv (o_blocks (w_obj x'))"
      by (auto simp add: I_def)
    moreover have "s_objects (w_st x') = s_objects (w_st w)"
    proof -
      have "s_objects (w_st x') = s_objects ((w_st x)\<lparr>alloc_plan := alloc_plan (w_st x')\<rparr>)"
        using write_iter_Inl_blocks [OF wi] by simp
      then show ?thesis using Ix by (simp add: I_def)
    qed
    ultimately show "I x'" by (simp add: I_def)
  qed
  have fail: "\<And>x r x'. I x \<Longrightarrow> w_len_write x \<noteq> 0 \<Longrightarrow> write_iter x = Some (Inr (r, x')) \<Longrightarrow> I x'"
  proof -
    fix x r x' assume Ix: "I x" and wi: "write_iter x = Some (Inr (r, x'))"
    have "s_objects (w_st x') = s_objects ((w_st x)\<lparr>alloc_plan := alloc_plan (w_st x')\<rparr>)"
      using write_iter_Inr_server [OF wi] by simp
    then have "s_objects (w_st x') = s_objects (w_st w)" using Ix by (simp add: I_def)
    then show "I x'" using write_iter_Inr [OF wi] Ix by (simp add: I_def)
  qed
  have "I (snd (ret, w')) \<and> (fst (ret, w') = 0 \<longrightarrow> w_len_write (snd (ret, w')) = 0) \<and>
      (fst (ret, w') \<noteq> 0 \<longrightarrow> fst (ret, w') = - ENOMEM)"
  proof (rule write_loop_rule [where I = I, OF run init])
    fix x x' assume "I x" "w_len_write x \<noteq> 0" "write_iter x = Some (Inl x')"
    then show "I x'" by (rule step)
  next
    fix x r x' assume "I x" "w_len_write x \<noteq> 0" "write_iter x = Some (Inr (r, x'))"
    then show "I x'" by (rule fail)
  qed
  then show ?thesis by (simp add: I_def)
qed

section \<open>What a write leaves in the object table\<close>

lemmas eval_defs = handle_osd_op_write_def find_or_create_object_def alloc_def write_iter_def
  next_dst_def ALIGN_DOWN_def OSDS_BLOCK_SIZE_def OSDS_BLOCK_SHIFT_def OSDS_BLOCK_MASK_def
  ceph_msg_data_cursor_next_def ceph_msg_data_cursor_advance_def ceph_msg_data_cursor_init_def
  iov_iter_bvec_def iov_iter_count_def copy_from_iter_def copy_from_iter_raw_def
  iterate_and_advance_def ptr_diff_def write_out_def copy_chunk_def
  srv0_def req0_def write_op_def read_op_def stat_op_def zero_op_def data_cursor_def
  empty_hoid_def uacc0_def Let_def

lemma find_or_create_object_cases:
  assumes "find_or_create_object st req = (o1, st1)"
  shows "st1 = st\<lparr>alloc_plan := alloc_plan st1, s_objects := s_objects st1\<rparr> \<and>
         (case o1 of
            None \<Rightarrow> s_objects st1 = s_objects st \<and> s_objects st (hoid req) = None
          | Some obj \<Rightarrow>
              s_objects st1 = (s_objects st)(hoid req \<mapsto> obj) \<and>
              (case s_objects st (hoid req) of
                 Some old \<Rightarrow> obj = old
               | None \<Rightarrow> obj = \<lparr>o_hoid = hoid req, o_blocks = [], o_size = 0,
                                 o_mtime = stale_mtime st\<rparr>))"
  using assms
  by (auto simp add: find_or_create_object_def alloc_def Let_def
      split: option.splits prod.splits bool.splits list.splits)

lemma handle_osd_op_write_cases:
  assumes "handle_osd_op_write st req op in_cur = Some (ret, st', cur')"
  shows "(ret = 0 \<and> st' = st \<and> cur' = in_cur \<and>
            (extent_length op = 0 \<or> (opt_noop_write st \<and> 4096 \<le> extent_length op))) \<or>
         (ret = - ENOMEM \<and> s_objects st' = s_objects st) \<or>
         (extent_length op \<noteq> 0 \<and> \<not> (opt_noop_write st \<and> 4096 \<le> extent_length op) \<and>
          (\<exists>obj st1 w'. find_or_create_object st req = (Some obj, st1) \<and>
             write_loop \<lparr>w_st = st1, w_obj = obj, w_blk = None, w_dst_len = 0,
                         w_dst_off = extent_offset op, w_len_write = extent_length op,
                         w_modified = False, w_cur = in_cur\<rparr> = Some (ret, w') \<and>
             s_objects st' = (s_objects st1)(hoid req \<mapsto> write_out req w')))"
proof (cases "extent_length op = 0 \<or> (opt_noop_write st \<and> 4096 \<le> extent_length op)")
  case True
  then have "handle_osd_op_write st req op in_cur = Some (0, st, in_cur)"
    by (auto simp add: handle_osd_op_write_def)
  then show ?thesis using assms True by simp
next
  case False
  obtain o1 st1 where f: "find_or_create_object st req = (o1, st1)" by (cases "find_or_create_object st req")
  show ?thesis
  proof (cases o1)
    case None
    then have "s_objects st1 = s_objects st" using find_or_create_object_cases [OF f] by simp
    then show ?thesis using assms False f None by (auto simp add: handle_osd_op_write_def)
  next
    case (Some obj)
    define w0 where "w0 = \<lparr>w_st = st1, w_obj = obj, w_blk = None, w_dst_len = 0,
                         w_dst_off = extent_offset op, w_len_write = extent_length op,
                         w_modified = False, w_cur = in_cur\<rparr>"
    from assms False f Some obtain w' where
      r: "write_loop w0 = Some (ret, w')"
      "st' = (w_st w')\<lparr>s_objects := (s_objects (w_st w'))(hoid req \<mapsto> write_out req w')\<rparr>"
      by (auto simp add: handle_osd_op_write_def w0_def split: option.splits)
    from write_loop_facts [OF r(1)] have "s_objects (w_st w') = s_objects st1" by (simp add: w0_def)
    then have "s_objects st' = (s_objects st1)(hoid req \<mapsto> write_out req w')" using r(2) by simp
    then show ?thesis using False f Some r(1) by (auto simp add: w0_def)
  qed
qed

lemma handle_osd_op_write_object:
  assumes run: "handle_osd_op_write st req op in_cur = Some (0, st', cur')"
    and nz: "extent_length op \<noteq> 0"
    and slow: "\<not> (opt_noop_write st \<and> 4096 \<le> extent_length op)"
  shows "\<exists>obj'. s_objects st' (hoid req) = Some obj' \<and> o_mtime obj' = mtime req \<and>
           o_size obj' = max (case s_objects st (hoid req) of None \<Rightarrow> 0 | Some obj \<Rightarrow> o_size obj)
                             (extent_offset op + extent_length op)"
proof -
  from handle_osd_op_write_cases [OF run] nz slow obtain obj st1 w' where
    f: "find_or_create_object st req = (Some obj, st1)"
    and l: "write_loop \<lparr>w_st = st1, w_obj = obj, w_blk = None, w_dst_len = 0,
                         w_dst_off = extent_offset op, w_len_write = extent_length op,
                         w_modified = False, w_cur = in_cur\<rparr> = Some (0, w')"
    and s: "s_objects st' = (s_objects st1)(hoid req \<mapsto> write_out req w')"
    by (auto simp add: ENOMEM_def)
  from write_loop_facts [OF l] nz have w: "w_len_write w' = 0"
    "w_dst_off w' = extent_offset op + extent_length op" "o_size (w_obj w') = o_size obj"
    "w_modified w'"
    by auto
  have prev: "o_size obj = (case s_objects st (hoid req) of None \<Rightarrow> 0 | Some obj \<Rightarrow> o_size obj)"
    using find_or_create_object_cases [OF f] by (auto split: option.splits)
  have "o_mtime (write_out req w') = mtime req" using w(4) by (simp add: write_out_def)
  moreover have "o_size (write_out req w') = max (o_size obj) (extent_offset op + extent_length op)"
    using w by (auto simp add: write_out_def max_def)
  ultimately show ?thesis using s prev by simp
qed

lemma alloc_bvec_server:
  "alloc_bvec st n = (ret, st1, pa) \<Longrightarrow> st1 = st\<lparr>alloc_plan := alloc_plan st1\<rparr>"
  by (auto simp add: alloc_bvec_def alloc_def split: prod.splits bool.splits list.splits)

lemma handle_osd_op_read_objects:
  assumes "handle_osd_op_read st req op = Some (ret, st1, op1)"
  shows "s_objects st1 = s_objects st"
proof (cases "s_objects st (hoid req)")
  case None
  then show ?thesis using assms by (simp add: handle_osd_op_read_def)
next
  case (Some obj)
  show ?thesis
  proof (cases "o_size obj \<le> extent_offset op")
    case True
    then show ?thesis using assms Some by (simp add: handle_osd_op_read_def)
  next
    case False
    obtain r st2 pa where a: "alloc_bvec st (min (extent_length op) (o_size obj - extent_offset op)) = (r, st2, pa)"
      by (metis prod_cases3)
    have "st1 = st2" using assms Some False a
      by (auto simp add: handle_osd_op_read_def Let_def split: if_splits option.splits prod.splits)
    then show ?thesis using alloc_bvec_server [OF a] by (metis ceph_osd_server.select_convs(1) ceph_osd_server.surjective ceph_osd_server.update_convs(5))
  qed
qed

lemma handle_osd_op_stat_objects:
  assumes "handle_osd_op_stat st req op = Some (ret, st1, op1)"
  shows "s_objects st1 = s_objects st"
proof (cases "s_objects st (hoid req)")
  case None
  then show ?thesis using assms by (simp add: handle_osd_op_stat_def)
next
  case (Some obj)
  obtain r st2 pa where a: "alloc_bvec st (8 + 8) = (r, st2, pa)" by (metis prod_cases3)
  have e: "s_objects st2 = s_objects st"
  proof -
    have "s_objects st2 = s_objects (st\<lparr>alloc_plan := alloc_plan st2\<rparr>)"
      using alloc_bvec_server [OF a] by simp
    then show ?thesis by simp
  qed
  show ?thesis using assms Some a e
    by (auto simp add: handle_osd_op_stat_def Let_def split: if_splits option.splits)
qed

lemma write_example:
  "\<exists>st' cur'. handle_osd_op_write srv0 req0 (write_op 65535 3) (data_cursor 65 3) = Some (0, st', cur')"
proof -
  have "map_option fst (handle_osd_op_write srv0 req0 (write_op 65535 3) (data_cursor 65 3)) = Some 0"
    by (simp add: eval_defs write_loop.simps)
  then show ?thesis by auto
qed

section \<open>The block maps of the table stay ordered and aligned\<close>

lemma store_inv_cong: "s_objects a = s_objects b \<Longrightarrow> store_inv a = store_inv b"
  by (simp add: store_inv_def)

lemma blocks_inv_Nil: "blocks_inv []"
  by (simp add: blocks_inv_def)

lemma handle_osd_op_write_store_inv:
  assumes run: "handle_osd_op_write st req op in_cur = Some (ret, st', cur')" and inv: "store_inv st"
  shows "store_inv st'"
proof -
  from handle_osd_op_write_cases [OF run] show ?thesis
  proof (elim disjE)
    assume "ret = 0 \<and> st' = st \<and> cur' = in_cur \<and>
            (extent_length op = 0 \<or> (opt_noop_write st \<and> 4096 \<le> extent_length op))"
    then show ?thesis using inv by simp
  next
    assume "ret = - ENOMEM \<and> s_objects st' = s_objects st"
    then show ?thesis using inv store_inv_cong by blast
  next
    assume "extent_length op \<noteq> 0 \<and> \<not> (opt_noop_write st \<and> 4096 \<le> extent_length op) \<and>
          (\<exists>obj st1 w'. find_or_create_object st req = (Some obj, st1) \<and>
             write_loop \<lparr>w_st = st1, w_obj = obj, w_blk = None, w_dst_len = 0,
                         w_dst_off = extent_offset op, w_len_write = extent_length op,
                         w_modified = False, w_cur = in_cur\<rparr> = Some (ret, w') \<and>
             s_objects st' = (s_objects st1)(hoid req \<mapsto> write_out req w'))"
    then obtain obj st1 w' where
      f: "find_or_create_object st req = (Some obj, st1)"
      and l: "write_loop \<lparr>w_st = st1, w_obj = obj, w_blk = None, w_dst_len = 0,
                         w_dst_off = extent_offset op, w_len_write = extent_length op,
                         w_modified = False, w_cur = in_cur\<rparr> = Some (ret, w')"
      and s: "s_objects st' = (s_objects st1)(hoid req \<mapsto> write_out req w')"
      by blast
    from find_or_create_object_cases [OF f] have
      s1: "s_objects st1 = (s_objects st)(hoid req \<mapsto> obj)"
      and o: "case s_objects st (hoid req) of Some old \<Rightarrow> obj = old
              | None \<Rightarrow> obj = \<lparr>o_hoid = hoid req, o_blocks = [], o_size = 0, o_mtime = stale_mtime st\<rparr>"
      by simp_all
    have "blocks_inv (o_blocks obj)"
      using o inv blocks_inv_Nil by (auto simp add: store_inv_def split: option.splits)
    then have "blocks_inv (o_blocks (w_obj w'))" using write_loop_facts [OF l] by simp
    then have "blocks_inv (o_blocks (write_out req w'))" by (simp add: write_out_def)
    then show ?thesis using s s1 inv by (auto simp add: store_inv_def)
  qed
qed

lemma handle_osd_op_store_inv:
  assumes "handle_osd_op st req op in_cur = Some (ret, st', op', cur')" and "store_inv st"
  shows "store_inv st'"
proof (cases "opcode op")
  case CEPH_OSD_OP_WRITE
  then obtain r c where "handle_osd_op_write st req op in_cur = Some (r, st', c)"
    using assms(1) by (auto simp add: handle_osd_op_def split: option.splits)
  then show ?thesis using handle_osd_op_write_store_inv assms(2) by blast
next
  case CEPH_OSD_OP_READ
  then obtain r o1 where "handle_osd_op_read st req op = Some (r, st', o1)"
    using assms(1) by (auto simp add: handle_osd_op_def split: option.splits)
  then show ?thesis using handle_osd_op_read_objects store_inv_cong assms(2) by blast
next
  case CEPH_OSD_OP_STAT
  then obtain r o1 where "handle_osd_op_stat st req op = Some (r, st', o1)"
    using assms(1) by (auto simp add: handle_osd_op_def split: option.splits)
  then show ?thesis using handle_osd_op_stat_objects store_inv_cong assms(2) by blast
qed (use assms in \<open>auto simp add: handle_osd_op_def\<close>)

lemma osd_ops_loop_store_inv:
  "osd_ops_loop st req in_cur ret i = Some (ret', st', req', cur') \<Longrightarrow> store_inv st \<Longrightarrow> store_inv st'"
proof (induction "unat (num_ops req) - i" arbitrary: st req in_cur ret i rule: less_induct)
  case less
  note prems = less.prems
  show ?case
  proof (cases "i < unat (num_ops req)")
    case False
    then show ?thesis using prems by (subst (asm) osd_ops_loop.simps) simp
  next
    case True
    show ?thesis
    proof (cases "length (ops req) \<le> i")
      case True
      then show ?thesis using prems \<open>i < unat (num_ops req)\<close>
        by (subst (asm) osd_ops_loop.simps) simp
    next
      case False
      from prems(1) True False obtain ret1 st1 op1 cur1 where
        h: "handle_osd_op st req (ops req ! i) in_cur = Some (ret1, st1, op1, cur1)"
        by (subst (asm) osd_ops_loop.simps) (auto split: option.splits)
      have inv1: "store_inv st1" using handle_osd_op_store_inv [OF h prems(2)] .
      define ret2 where "ret2 = (if ret1 \<noteq> 0 \<and> flags op1 AND CEPH_OSD_OP_FLAG_FAILOK \<noteq> 0 \<and>
                                     ret1 \<noteq> - EAGAIN \<and> ret1 \<noteq> - EINPROGRESS
                                  then 0 else ret1)"
      show ?thesis
      proof (cases "ret2 \<noteq> 0")
        case True
        then have "st' = st1" using prems(1) \<open>i < unat (num_ops req)\<close> False h
          by (subst (asm) osd_ops_loop.simps) (auto simp add: ret2_def Let_def split: if_splits)
        then show ?thesis using inv1 by simp
      next
        case r0: False
        then have "osd_ops_loop st1 (req\<lparr>ops := (ops req)[i := op1]\<rparr>) cur1 ret2 (i + 1) =
            Some (ret', st', req', cur')"
          using prems(1) \<open>i < unat (num_ops req)\<close> False h
          by (subst (asm) osd_ops_loop.simps) (auto simp add: ret2_def Let_def split: if_splits)
        moreover have "unat (num_ops (req\<lparr>ops := (ops req)[i := op1]\<rparr>)) - (i + 1) <
            unat (num_ops req) - i"
          using \<open>i < unat (num_ops req)\<close> by simp
        ultimately show ?thesis using less.hyps inv1 by blast
      qed
    qed
  qed
qed

lemma alloc_objects: "alloc st = (ok, st1) \<Longrightarrow> s_objects st1 = s_objects st"
  by (auto simp add: alloc_def split: list.splits)

lemma decode_snap_array_objects:
  "decode_snap_array st req p = Inl (r, st1) \<Longrightarrow> s_objects st1 = s_objects st"
  "decode_snap_array st req p = Inr (vs, p1, st2) \<Longrightarrow> s_objects st2 = s_objects st"
proof -
  obtain ok sta where a: "alloc st = (ok, sta)" by (cases "alloc st")
  have s: "s_objects sta = s_objects st" using alloc_objects [OF a] .
  show "decode_snap_array st req p = Inl (r, st1) \<Longrightarrow> s_objects st1 = s_objects st"
    using a s by (cases ok) (auto simp add: decode_snap_array_def split: if_splits option.splits)
  show "decode_snap_array st req p = Inr (vs, p1, st2) \<Longrightarrow> s_objects st2 = s_objects st"
    using a s by (cases ok) (auto simp add: decode_snap_array_def split: if_splits option.splits)
qed

lemma decode_tail_objects:
  assumes "decode_tail st p req ret = (r, req', st')"
  shows "s_objects st' = s_objects st"
proof (cases "decode_le 8 p :: (u64 \<times> byte list) option")
  case None
  then show ?thesis using assms by (simp add: decode_tail_def)
next
  case (Some a1)
  obtain snapid p1 where a1: "a1 = (snapid, p1)" by (cases a1)
  show ?thesis
  proof (cases "decode_le 8 p1 :: (u64 \<times> byte list) option")
    case None
    then show ?thesis using assms Some a1 by (simp add: decode_tail_def Let_def)
  next
    case (Some a2)
    note s2 = Some
    obtain sseq p2 where a2: "a2 = (sseq, p2)" by (cases a2)
    show ?thesis
    proof (cases "decode_le 4 p2 :: (u32 \<times> byte list) option")
      case None
      then show ?thesis using assms \<open>decode_le 8 p = Some a1\<close> a1 s2 a2
        by (simp add: decode_tail_def Let_def)
    next
      case (Some a3)
      obtain nsnaps p3 where a3: "a3 = (nsnaps, p3)" by (cases a3)
      define rq where "rq = req\<lparr>hoid := (hoid req)\<lparr>hoid_snapid := snapid\<rparr>, snap_seq := sseq,
          num_snaps := nsnaps\<rparr>"
      show ?thesis
      proof (cases "decode_snap_array st rq p3")
        case (Inl e)
        then have "s_objects (snd e) = s_objects st"
          using decode_snap_array_objects(1) [of st rq p3 "fst e" "snd e"] by simp
        then show ?thesis using assms \<open>decode_le 8 p = Some a1\<close> a1 s2 a2 Some a3 Inl
          by (cases e) (auto simp add: decode_tail_def Let_def rq_def split: if_splits)
      next
        case (Inr e)
        obtain vs p4 st1 where e: "e = (vs, p4, st1)" by (cases e)
        then have "s_objects st1 = s_objects st"
          using decode_snap_array_objects(2) [of st rq p3 vs p4 st1] Inr by simp
        then show ?thesis using assms \<open>decode_le 8 p = Some a1\<close> a1 s2 a2 Some a3 Inr e
          by (auto simp add: decode_tail_def Let_def rq_def split: if_splits option.splits)
      qed
    qed
  qed
qed

lemma ceph_decode_msg_osd_op_objects:
  assumes "ceph_decode_msg_osd_op W st msg r0 = Some (ret, req, st')"
  shows "s_objects st' = s_objects st"
proof (cases "decode_head W msg r0")
  case (Inl e)
  then show ?thesis using assms by (cases e) (simp add: ceph_decode_msg_osd_op_def)
next
  case (Inr e)
  obtain r1 p1 rq1 where e: "e = (r1, p1, rq1)" by (cases e)
  show ?thesis
  proof (cases "decode_le 2 p1 :: (u16 \<times> byte list) option")
    case None
    then show ?thesis using assms Inr e by (simp add: ceph_decode_msg_osd_op_def)
  next
    case (Some a)
    obtain n p2 where a: "a = (n, p2)" by (cases a)
    show ?thesis
    proof (cases "CEPH_OSD_MAX_OPS < unat (ucast n :: u32)")
      case True
      then show ?thesis using assms Inr e Some a by (simp add: ceph_decode_msg_osd_op_def Let_def)
    next
      case False
      show ?thesis
      proof (cases "decode_ops_loop W p2 (rq1\<lparr>num_ops := ucast n\<rparr>) r1 0")
        case None
        then show ?thesis using assms Inr e Some a False
          by (simp add: ceph_decode_msg_osd_op_def Let_def)
      next
        case (Some b)
        obtain r3 p3 rq3 where b: "b = (r3, p3, rq3)" by (cases b)
        show ?thesis
        proof (cases "r3 = 0")
          case True
          then have "decode_tail st p3 rq3 r3 = (ret, req, st')"
            using assms Inr e \<open>decode_le 2 p1 = Some a\<close> a False Some b
            by (simp add: ceph_decode_msg_osd_op_def Let_def)
          then show ?thesis by (rule decode_tail_objects)
        next
          case r3: False
          then show ?thesis using assms Inr e \<open>decode_le 2 p1 = Some a\<close> a False Some b
            by (simp add: ceph_decode_msg_osd_op_def Let_def)
        qed
      qed
    qed
  qed
qed

lemma create_osd_op_reply_objects:
  assumes "create_osd_op_reply st req result ep ack = Some (reply, st')"
  shows "s_objects st' = s_objects st"
  using assms alloc_objects [of st]
  by (cases "alloc st")
    (auto simp add: create_osd_op_reply_def Let_def split: if_splits prod.splits bool.splits)

lemma handle_osd_ops_cases:
  assumes "handle_osd_ops W st msg = Some (st', reply)"
  shows "\<exists>ret req st0. ceph_decode_msg_osd_op W st msg (stale_req st) = Some (ret, req, st0) \<and>
           ((ret \<noteq> 0 \<and> st' = st0 \<and> reply = None) \<or>
            (ret = 0 \<and>
             (\<exists>ret' st1 req' cur'.
                osd_ops_loop st0 req (ceph_msg_data_cursor_init (data msg) (data_length msg)) ret 0 =
                  Some (ret', st1, req', cur') \<and>
                create_osd_op_reply st1 req' ret' (osdmap_epoch st1)
                  (CEPH_OSD_FLAG_ACK OR CEPH_OSD_FLAG_ONDISK) = Some (reply, st'))))"
proof (cases "ceph_decode_msg_osd_op W st msg (stale_req st)")
  case None
  then show ?thesis using assms by (simp add: handle_osd_ops_def split: if_splits)
next
  case (Some d)
  obtain ret req st0 where d: "d = (ret, req, st0)" by (cases d)
  show ?thesis
  proof (cases "ret = 0")
    case False
    then show ?thesis using assms Some d by (simp add: handle_osd_ops_def split: if_splits)
  next
    case True
    show ?thesis
    proof (cases "osd_ops_loop st0 req (ceph_msg_data_cursor_init (data msg) (data_length msg)) ret 0")
      case None
      then show ?thesis using assms Some d True
        by (simp add: handle_osd_ops_def Let_def split: if_splits)
    next
      case l: (Some e)
      obtain ret' st1 req' cur' where e: "e = (ret', st1, req', cur')" by (cases e)
      have "create_osd_op_reply st1 req' ret' (osdmap_epoch st1)
                  (CEPH_OSD_FLAG_ACK OR CEPH_OSD_FLAG_ONDISK) = Some (reply, st')"
        using assms Some d True l e
        by (cases "create_osd_op_reply st1 req' ret' (osdmap_epoch st1)
                  (CEPH_OSD_FLAG_ACK OR CEPH_OSD_FLAG_ONDISK)")
          (auto simp add: handle_osd_ops_def Let_def split: if_splits prod.splits)
      then show ?thesis using Some d True l e by simp
    qed
  qed
qed

lemma handle_osd_ops_store_inv:
  assumes "handle_osd_ops W st msg = Some (st', reply)" and "store_inv st"
  shows "store_inv st'"
proof -
  from handle_osd_ops_cases [OF assms(1)] obtain ret req st0 where
    d: "ceph_decode_msg_osd_op W st msg (stale_req st) = Some (ret, req, st0)"
    and c: "(ret \<noteq> 0 \<and> st' = st0 \<and> reply = None) \<or>
            (ret = 0 \<and>
             (\<exists>ret' st1 req' cur'.
                osd_ops_loop st0 req (ceph_msg_data_cursor_init (data msg) (data_length msg)) ret 0 =
                  Some (ret', st1, req', cur') \<and>
                create_osd_op_reply st1 req' ret' (osdmap_epoch st1)
                  (CEPH_OSD_FLAG_ACK OR CEPH_OSD_FLAG_ONDISK) = Some (reply, st')))"
    by blast
  have inv0: "store_inv st0"
    using ceph_decode_msg_osd_op_objects [OF d] assms(2) store_inv_cong by blast
  from c show ?thesis
  proof
    assume "ret \<noteq> 0 \<and> st' = st0 \<and> reply = None"
    then show ?thesis using inv0 by simp
  next
    assume "ret = 0 \<and>
             (\<exists>ret' st1 req' cur'.
                osd_ops_loop st0 req (ceph_msg_data_cursor_init (data msg) (data_length msg)) ret 0 =
                  Some (ret', st1, req', cur') \<and>
                create_osd_op_reply st1 req' ret' (osdmap_epoch st1)
                  (CEPH_OSD_FLAG_ACK OR CEPH_OSD_FLAG_ONDISK) = Some (reply, st'))"
    then obtain ret' st1 req' cur' where
      l: "osd_ops_loop st0 req (ceph_msg_data_cursor_init (data msg) (data_length msg)) ret 0 =
            Some (ret', st1, req', cur')"
      and r: "create_osd_op_reply st1 req' ret' (osdmap_epoch st1)
                (CEPH_OSD_FLAG_ACK OR CEPH_OSD_FLAG_ONDISK) = Some (reply, st')"
      by blast
    have "store_inv st1" using osd_ops_loop_store_inv [OF l inv0] .
    then show ?thesis using create_osd_op_reply_objects [OF r] store_inv_cong by blast
  qed
qed

lemma osds_run_store_inv:
  "osds_run W st msgs = Some st' \<Longrightarrow> store_inv st \<Longrightarrow> store_inv st'"
proof (induction msgs arbitrary: st)
  case Nil
  then show ?case by simp
next
  case (Cons msg msgs)
  from Cons.prems(1) obtain st1 reply where
    d: "osds_dispatch W st msg = Some (st1, reply)" and r: "osds_run W st1 msgs = Some st'"
    by (auto split: option.splits)
  have "store_inv st1"
    using d Cons.prems(2) handle_osd_ops_store_inv
    by (auto simp add: osds_dispatch_def split: if_splits)
  then show ?case using Cons.IH [OF r] by simp
qed

lemma blocks_inv_aligned:
  assumes "blocks_inv bs" and "b \<in> set bs"
  shows "uint OSDS_BLOCK_SIZE dvd sint (b_off b)"
proof -
  have "b_off b AND mask 16 = 0" using assms by (simp add: blocks_inv_def block_mask_val)
  then have "2 ^ 16 dvd uint (b_off b)" using and_mask_dvd [of 16 "b_off b"] by blast
  moreover have "(2 ^ 16 :: int) dvd 2 ^ 64" by simp
  ultimately have "2 ^ 16 dvd sint (b_off b)" by (simp add: sint64)
  then show ?thesis by (simp add: block_size_val)
qed

lemma blocks_inv_no_overlap:
  assumes "blocks_inv bs" and "b1 \<in> set bs" and "b2 \<in> set bs" and "b1 \<noteq> b2"
  shows "sint (b_off b1) + uint OSDS_BLOCK_SIZE \<le> sint (b_off b2) \<or>
         sint (b_off b2) + uint OSDS_BLOCK_SIZE \<le> sint (b_off b1)"
proof -
  have srt: "sorted_wrt (\<lambda>a b. sint (b_off a) < sint (b_off b)) bs"
    using assms(1) by (simp add: blocks_inv_def sorted_wrt_map)
  have ne: "sint (b_off b1) \<noteq> sint (b_off b2)"
  proof -
    from assms(2) obtain i where i: "i < length bs" "bs ! i = b1" by (auto simp add: in_set_conv_nth)
    from assms(3) obtain j where j: "j < length bs" "bs ! j = b2" by (auto simp add: in_set_conv_nth)
    have "i \<noteq> j" using i j assms(4) by auto
    then consider "i < j" | "j < i" by linarith
    then show ?thesis
    proof cases
      case 1
      from sorted_wrt_nth_less [OF srt 1 j(1)] show ?thesis using i j by simp
    next
      case 2
      from sorted_wrt_nth_less [OF srt 2 i(1)] show ?thesis using i j by simp
    qed
  qed
  from blocks_inv_aligned [OF assms(1,2)] blocks_inv_aligned [OF assms(1,3)]
  obtain m n where mn: "sint (b_off b1) = 65536 * m" "sint (b_off b2) = 65536 * n"
    by (auto simp add: block_size_val dvd_def)
  then have "m \<noteq> n" using ne by auto
  then have "m + 1 \<le> n \<or> n + 1 \<le> m" by linarith
  then have "65536 * m + 65536 \<le> 65536 * n \<or> 65536 * n + 65536 \<le> 65536 * m" by linarith
  then show ?thesis unfolding mn block_size_val by simp
qed

section \<open>Worked requests\<close>

lemmas wire_defs = wire0_def start_decoding0_def decode_pgid0_def oloc_decode0_def opcode_of_def
  raw_osd_op0_def aprintf0_def msg_of_def decode_le_def decode_skip_n_def le_word_def
  decode_spgid_def decode_head_def ceph_decode_msg_osd_op_def decode_tail_def
  decode_snap_array_def osd_req_decode_op_def init_msg_osd_op_def deinit_msg_osd_op_def
  CEPH_OSD_MAX_OPS_def EINVAL_def ENOMEM_def

lemma decode_write_example:
  "ceph_decode_msg_osd_op wire0 srv0 (msg_of front_write [0x68, 0x69]) req0 =
     Some (0, req0\<lparr>num_ops := 1, epoch := 1,
                    ops := (replicate CEPH_OSD_MAX_OPS zero_op)[0 := (write_op 0 2)\<lparr>indata_len := 2\<rparr>],
                    spgid_shard := 255,
                    hoid := empty_hoid\<lparr>hoid_name := [0x58]\<rparr>\<rparr>, srv0)"
  by (simp add: wire_defs front_write_def req0_def srv0_def zero_op_def write_op_def empty_hoid_def
      decode_ops_loop.simps Let_def)

lemmas run_defs = osds_dispatch_def handle_osd_ops_def handle_osd_op_def create_osd_op_reply_def
  CEPH_MSG_OSD_OP_def CEPH_OSD_OP_FLAG_FAILOK_def EAGAIN_def EINPROGRESS_def EOPNOTSUPP_def
  ENOENT_def osd_req_encode_op_def handle_osd_op_read_def handle_osd_op_stat_def

lemma run_write_example:
  "\<exists>st' obj. osds_run wire0 srv0 [msg_of front_write [0x68, 0x69]] = Some st' \<and>
      s_objects st' (empty_hoid\<lparr>hoid_name := [0x58]\<rparr>) = Some obj"
  by (simp add: run_defs wire_defs eval_defs front_write_def
      decode_ops_loop.simps osd_ops_loop.simps write_loop.simps)

lemma run_cross_example:
  "block_offsets
     (osds_run wire0 srv0 [msg_of front_write_cross [0x61, 0x62, 0x63], msg_of front_write [0x68, 0x69]])
     (empty_hoid\<lparr>hoid_name := [0x58]\<rparr>) = Some (Some [0, 65536])"
  by (simp add: run_defs wire_defs eval_defs front_write_def front_write_cross_def block_offsets_def
      decode_ops_loop.simps osd_ops_loop.simps write_loop.simps)

lemmas stat_defs = handle_osd_op_stat_def srv5_def srv5p_def obj5_def eval_defs alloc_bvec_def
  ceph_encode_64_def ceph_encode_copy_def ceph_encode_timespec64_def store_bytes_def load_ptr_def
  page_address_def le_bytes_def le_word_def upt_rec ENOENT_def ENOMEM_def in_page_def PAGE_SIZE_def
  stat_reply_def

section \<open>What the decoder leaves in the ops, and the op loop\<close>

lemma osd_req_decode_op_fresh:
  "osd_req_decode_op W p dst = (r, p', dst') \<Longrightarrow> fresh_op dst \<Longrightarrow> fresh_op dst'"
  by (auto simp add: osd_req_decode_op_def fresh_op_def Let_def
      split: if_splits prod.splits osd_opcode.splits)

lemma decode_ops_loop_fresh:
  "decode_ops_loop W p req ret i = Some (r, p', req') \<Longrightarrow> \<forall>x \<in> set (ops req). fresh_op x \<Longrightarrow>
   (\<forall>x \<in> set (ops req'). fresh_op x) \<and> num_ops req' = num_ops req \<and>
   length (ops req') = length (ops req)"
proof (induction "unat (num_ops req) - i" arbitrary: p req ret i rule: less_induct)
  case less
  show ?case
  proof (cases "i < unat (num_ops req)")
    case False
    then show ?thesis using less.prems by (subst (asm) decode_ops_loop.simps) simp
  next
    case True
    show ?thesis
    proof (cases "length (ops req) \<le> i")
      case True
      then show ?thesis using less.prems \<open>i < unat (num_ops req)\<close>
        by (subst (asm) decode_ops_loop.simps) simp
    next
      case False
      obtain r1 p1 op1 where d: "osd_req_decode_op W p (ops req ! i) = (r1, p1, op1)"
        by (metis prod_cases3)
      have "fresh_op (ops req ! i)" using less.prems(2) False by simp
      then have f1: "fresh_op op1" using osd_req_decode_op_fresh [OF d] by simp
      define req1 where "req1 = req\<lparr>ops := (ops req)[i := op1]\<rparr>"
      have fr: "\<forall>x \<in> set (ops req1). fresh_op x"
        using less.prems(2) f1 by (auto simp add: req1_def dest!: set_update_subset_insert [THEN subsetD])
      show ?thesis
      proof (cases "r1 = 0")
        case False
        then have "req' = req1" using less.prems(1) True \<open>\<not> length (ops req) \<le> i\<close> d
          by (subst (asm) decode_ops_loop.simps) (simp add: req1_def Let_def)
        then show ?thesis using fr by (simp add: req1_def)
      next
        case r0: True
        then have "decode_ops_loop W p1 req1 r1 (i + 1) = Some (r, p', req')"
          using less.prems(1) True \<open>\<not> length (ops req) \<le> i\<close> d
          by (subst (asm) decode_ops_loop.simps) (simp add: req1_def Let_def)
        moreover have "unat (num_ops req1) - (i + 1) < unat (num_ops req) - i"
          using True by (simp add: req1_def)
        ultimately have "(\<forall>x \<in> set (ops req'). fresh_op x) \<and> num_ops req' = num_ops req1 \<and>
            length (ops req') = length (ops req1)"
          using less.hyps fr by blast
        then show ?thesis by (simp add: req1_def)
      qed
    qed
  qed
qed

lemma fresh_zero_op: "fresh_op zero_op"
  by (simp add: fresh_op_def zero_op_def)

lemma decode_head_ops:
  "case decode_head W msg r0 of
     Inl (ret, req) \<Rightarrow> ops req = replicate CEPH_OSD_MAX_OPS zero_op
   | Inr (ret, p, req) \<Rightarrow> ret = 0 \<and> ops req = replicate CEPH_OSD_MAX_OPS zero_op"
  by (simp add: decode_head_def Let_def init_msg_osd_op_def deinit_msg_osd_op_def
      split: prod.split option.split)

lemma decode_tail_ops:
  "decode_tail st p req ret = (r, req', st') \<Longrightarrow> ops req' = ops req \<and> num_ops req' = num_ops req"
  by (auto simp add: decode_tail_def Let_def deinit_msg_osd_op_def
      split: prod.splits option.splits if_splits sum.splits)

lemma ceph_decode_msg_osd_op_fresh:
  assumes "ceph_decode_msg_osd_op W st msg r0 = Some (ret, req, st')"
  shows "length (ops req) = CEPH_OSD_MAX_OPS \<and> (\<forall>x \<in> set (ops req). fresh_op x)"
proof (cases "decode_head W msg r0")
  case (Inl a)
  then show ?thesis using assms decode_head_ops [of W msg r0]
    by (auto simp add: ceph_decode_msg_osd_op_def fresh_zero_op)
next
  case (Inr b)
  obtain r1 p1 req1 where b: "b = (r1, p1, req1)" by (metis prod_cases3)
  have h: "r1 = 0" "ops req1 = replicate CEPH_OSD_MAX_OPS zero_op"
    using decode_head_ops [of W msg r0] Inr b by simp_all
  show ?thesis
  proof (cases "decode_le 2 p1 :: (u16 \<times> byte list) option")
    case None
    then show ?thesis using assms Inr b h
      by (auto simp add: ceph_decode_msg_osd_op_def deinit_msg_osd_op_def fresh_zero_op)
  next
    case (Some a)
    obtain n p2 where a: "a = (n, p2)" by (cases a)
    define req2 where "req2 = req1\<lparr>num_ops := ucast n\<rparr>"
    have f2: "\<forall>x \<in> set (ops req2). fresh_op x" "length (ops req2) = CEPH_OSD_MAX_OPS"
      using h by (simp_all add: req2_def fresh_zero_op)
    show ?thesis
    proof (cases "CEPH_OSD_MAX_OPS < unat (num_ops req2)")
      case True
      then have "req = req2" using assms Inr b Some a
        by (simp add: ceph_decode_msg_osd_op_def req2_def deinit_msg_osd_op_def Let_def)
      then show ?thesis using f2 by simp
    next
      case False
      then obtain r3 p3 req3 where l: "decode_ops_loop W p2 req2 r1 0 = Some (r3, p3, req3)"
        using assms Inr b Some a
        by (auto simp add: ceph_decode_msg_osd_op_def req2_def Let_def split: option.splits)
      from decode_ops_loop_fresh [OF l f2(1)] f2(2)
      have f3: "\<forall>x \<in> set (ops req3). fresh_op x" "length (ops req3) = CEPH_OSD_MAX_OPS" by simp_all
      show ?thesis
      proof (cases "r3 = 0")
        case False
        then have "req = req3" using assms Inr b Some a l \<open>\<not> CEPH_OSD_MAX_OPS < unat (num_ops req2)\<close>
          by (simp add: ceph_decode_msg_osd_op_def req2_def deinit_msg_osd_op_def Let_def)
        then show ?thesis using f3 by simp
      next
        case True
        then have "decode_tail st p3 req3 r3 = (ret, req, st')"
          using assms Inr b Some a l \<open>\<not> CEPH_OSD_MAX_OPS < unat (num_ops req2)\<close>
          by (simp add: ceph_decode_msg_osd_op_def req2_def deinit_msg_osd_op_def Let_def)
        from decode_tail_ops [OF this] show ?thesis using f3 by simp
      qed
    qed
  qed
qed







lemma decode_read_eof_example:
  "ceph_decode_msg_osd_op wire0 srvX (msg_of front_read_eof []) req0 =
     Some (0, req0\<lparr>num_ops := 1, epoch := 1,
                    ops := (replicate CEPH_OSD_MAX_OPS zero_op)[0 := read_op 5 10],
                    spgid_shard := 255, hoid := hoidX\<rparr>, srvX)"
  by (simp add: wire_defs front_read_eof_def req0_def srv0_def srvX_def zero_op_def read_op_def
      empty_hoid_def hoidX_def decode_ops_loop.simps)


section \<open>What a read returns\<close>

text \<open>Signed and unsigned readings of 64-bit offsets, and the part of an offset below
  and above the block size.\<close>

lemma split_low: "(x AND NOT (mask n)) + (x AND mask n) = (x :: 'a::len word)"
proof -
  have "(x AND NOT (mask n)) AND (x AND mask n) = 0"
    by (rule bit_word_eqI) (auto simp add: bit_simps)
  then have "(x AND NOT (mask n)) + (x AND mask n) = (x AND NOT (mask n)) OR (x AND mask n)"
    by (rule disjunctive_add_eq_or)
  also have "\<dots> = x" by (rule bit_word_eqI) (auto simp add: bit_simps)
  finally show ?thesis .
qed

lemma uint_low: "uint ((x :: 64 word) AND mask 16) = uint x mod 65536"
  by (simp add: and_mask_mod_2p uint_word_of_int mod_mod_cancel)

lemma uint_high: "uint ((x :: 64 word) AND NOT (mask 16)) = uint x - uint x mod 65536"
proof -
  have "(x AND NOT (mask 16)) = x - (x AND mask 16)" using split_low [of x 16] by (simp add: algebra_simps)
  moreover have "uint (x AND mask 16) \<le> uint x"
    using zmod_le_nonneg_dividend [of "uint x" 65536] by (simp add: uint_low)
  ultimately show ?thesis by (simp add: uint_sub_if' uint_low)
qed

lemma sint_mod: "sint (x :: 64 word) mod 65536 = uint x mod 65536"
proof -
  have "(uint x - 2 ^ 64) mod 65536 = uint x mod 65536"
    using mod_diff_right_eq [of "uint x" "2 ^ 64" 65536] by simp
  then show ?thesis by (simp add: sint64)
qed

lemma floor_ge: "(2 :: int) ^ 63 \<le> u \<Longrightarrow> 2 ^ 63 \<le> u - u mod 65536"
proof -
  assume a: "(2 :: int) ^ 63 \<le> u"
  have "(2 :: int) ^ 63 div 65536 \<le> u div 65536" using a by (rule zdiv_mono1) simp
  then have "(2 :: int) ^ 47 \<le> u div 65536" by simp
  then have "65536 * (2 :: int) ^ 47 \<le> 65536 * (u div 65536)" by simp
  then show ?thesis by (simp add: minus_mod_eq_mult_div)
qed

lemma sint_high: "sint ((x :: 64 word) AND NOT (mask 16)) = sint x - sint x mod 65536"
proof (cases "uint x < 2 ^ 63")
  case True
  have "uint x mod 65536 \<ge> 0" by simp
  then have "uint x - uint x mod 65536 < 2 ^ 63" using True by linarith
  then show ?thesis using True by (simp add: sint64 uint_high sint_mod)
next
  case False
  then have "2 ^ 63 \<le> uint x - uint x mod 65536" using floor_ge [of "uint x"] by simp
  then show ?thesis using False by (simp add: sint64 uint_high) (simp add: sint_mod [symmetric] sint64)
qed

lemma sint_add64:
  assumes "sint (x :: 64 word) + uint (n :: 64 word) < 2 ^ 63"
  shows "sint (x + n) = sint x + uint n"
proof -
  define a where "a = uint x"
  define c where "c = uint n"
  have b: "0 \<le> a" "a < 2 ^ 64" "0 \<le> c" "c < 2 ^ 64"
    using uint_lt2p [of x] uint_lt2p [of n] by (simp_all add: a_def c_def)
  have h: "(if a < 2 ^ 63 then a else a - 2 ^ 64) + c < 2 ^ 63"
    using assms unfolding sint64 a_def c_def .
  have "sint (x + n) = (if (if a + c < 2 ^ 64 then a + c else a + c - 2 ^ 64) < 2 ^ 63
                        then (if a + c < 2 ^ 64 then a + c else a + c - 2 ^ 64)
                        else (if a + c < 2 ^ 64 then a + c else a + c - 2 ^ 64) - 2 ^ 64)"
    by (simp add: sint64 [of "x + n"] uint_plus_if' a_def c_def)
  also have "\<dots> = (if a < 2 ^ 63 then a else a - 2 ^ 64) + c"
    using b h by (auto split: if_splits)
  finally show ?thesis by (simp add: sint64 [of x] a_def c_def)
qed

lemma uint_diff64:
  assumes "sint (y :: 64 word) \<le> sint (x :: 64 word)"
  shows "uint (x - y) = sint x - sint y"
proof -
  define a where "a = uint x"
  define c where "c = uint y"
  have b: "0 \<le> a" "a < 2 ^ 64" "0 \<le> c" "c < 2 ^ 64"
    using uint_lt2p [of x] uint_lt2p [of y] by (simp_all add: a_def c_def)
  have h: "(if c < 2 ^ 63 then c else c - 2 ^ 64) \<le> (if a < 2 ^ 63 then a else a - 2 ^ 64)"
    using assms unfolding sint64 a_def c_def .
  have "uint (x - y) = (if c \<le> a then a - c else a - c + 2 ^ 64)"
    by (simp add: uint_sub_if' a_def c_def)
  also have "\<dots> = (if a < 2 ^ 63 then a else a - 2 ^ 64) - (if c < 2 ^ 63 then c else c - 2 ^ 64)"
    using b h by (auto split: if_splits)
  finally show ?thesis by (simp add: sint64 [of x] sint64 [of y] a_def c_def)
qed

lemma floor_mono: "X \<le> Y \<Longrightarrow> X - X mod 65536 \<le> Y - Y mod (65536 :: int)"
proof -
  assume "X \<le> Y"
  then have "X div 65536 \<le> Y div 65536" by (rule zdiv_mono1) simp
  then have "65536 * (X div 65536) \<le> 65536 * (Y div 65536)" by simp
  then show ?thesis by (simp add: minus_mod_eq_mult_div)
qed

lemma floor_in:
  assumes "65536 dvd B" and "B \<le> Y" and "Y < B + 65536"
  shows "Y mod 65536 = Y - (B :: int)"
proof -
  from assms(1) obtain q where q: "B = 65536 * q" by (auto simp add: dvd_def)
  have "Y = (Y - B) + q * 65536" using q by simp
  then have "Y mod 65536 = ((Y - B) + q * 65536) mod 65536" by simp
  also have "\<dots> = (Y - B) mod 65536" by (rule mod_mult_self1)
  also have "\<dots> = Y - B" using assms(2,3) by (simp add: mod_pos_pos_trivial)
  finally show ?thesis .
qed

lemma floor_le:
  assumes "65536 dvd B" and "B \<le> X"
  shows "B \<le> X - X mod (65536 :: int)"
proof -
  have "B - B mod 65536 \<le> X - X mod 65536" using assms(2) by (rule floor_mono)
  then show ?thesis using assms(1) by (simp add: dvd_eq_mod_eq_0)
qed

lemma mult_gap:
  assumes "65536 dvd a" and "65536 dvd b" and "b < a"
  shows "b + 65536 \<le> (a :: int)"
proof -
  from assms obtain m n where "a = 65536 * m" "b = 65536 * n" by (auto simp add: dvd_def)
  then show ?thesis using assms(3) by simp
qed

lemma sint_align: "sint (ALIGN_DOWN x OSDS_BLOCK_SIZE) = sint x - sint x mod 65536"
proof -
  have "OSDS_BLOCK_SIZE - 1 = mask 16" using block_mask_val by (simp add: OSDS_BLOCK_MASK_def)
  then show ?thesis by (simp add: ALIGN_DOWN_def sint_high)
qed

lemma unat_inblk: "unat (x AND NOT OSDS_BLOCK_MASK) = nat (sint x mod 65536)"
proof -
  have "uint (x AND NOT OSDS_BLOCK_MASK) = sint x mod 65536" by (simp add: block_mask_val uint_low sint_mod)
  then show ?thesis by (simp only: unat_eq_nat_uint)
qed

lemma sint_add_nat:
  assumes "k \<le> unat (n :: 64 word)" and "sint (off :: 64 word) + uint n < 2 ^ 63"
  shows "sint (off + of_nat k) = sint off + int k"
proof -
  have "k < 2 ^ 64" using assms(1) unsigned_less [of n, where 'a = nat] by simp
  then have u: "unat (of_nat k :: 64 word) = k" by (simp add: unat_of_nat)
  have "uint (of_nat k :: 64 word) = int (unat (of_nat k :: 64 word))" by (rule uint_nat)
  then have ui: "uint (of_nat k :: 64 word) = int k" using u by simp
  have "int k \<le> uint n" using assms(1) unfolding uint_nat by linarith
  then have "sint off + uint (of_nat k :: 64 word) < 2 ^ 63" using assms(2) ui by linarith
  from sint_add64 [OF this] ui show ?thesis by simp
qed

lemma lookup_mem:
  "blocks_inv bs \<Longrightarrow> b \<in> set bs \<Longrightarrow> lookup_object_block_by_off bs (b_off b) = Some b"
proof (induction bs)
  case Nil
  then show ?case by simp
next
  case (Cons a bs)
  have inv: "blocks_inv bs" using Cons.prems(1) by (simp add: blocks_inv_def)
  show ?case
  proof (cases "b = a")
    case True
    then show ?thesis by simp
  next
    case False
    then have m: "b \<in> set bs" using Cons.prems(2) by simp
    then have "sint (b_off a) < sint (b_off b)" using Cons.prems(1) by (auto simp add: blocks_inv_def)
    then have "b_off a \<noteq> b_off b" by auto
    then show ?thesis using Cons.IH [OF inv m] by simp
  qed
qed

lemma spec_read_hole:
  assumes "\<forall>b \<in> set bs. sint (b_off b) \<noteq> sint (off + of_nat k) - sint (off + of_nat k) mod 65536"
  shows "spec_read_byte bs off k = 0"
proof -
  have "ALIGN_DOWN (off + of_nat k) OSDS_BLOCK_SIZE \<notin> set (map b_off bs)"
    using assms sint_align [of "off + of_nat k"] by auto
  then have "lookup_object_block_by_off bs (ALIGN_DOWN (off + of_nat k) OSDS_BLOCK_SIZE) = None"
    by (simp only: lookup_None_iff not_False_eq_True)
  then show ?thesis by (simp add: spec_read_byte_def)
qed

lemma spec_read_block:
  assumes "blocks_inv bs" and "b \<in> set bs"
    and "sint (b_off b) = sint (off + of_nat k) - sint (off + of_nat k) mod 65536"
  shows "spec_read_byte bs off k = b_page b (nat (sint (off + of_nat k) mod 65536))"
proof -
  have "sint (b_off b) = sint (ALIGN_DOWN (off + of_nat k) OSDS_BLOCK_SIZE)"
    using assms(3) by (simp add: sint_align)
  then have "b_off b = ALIGN_DOWN (off + of_nat k) OSDS_BLOCK_SIZE" by (rule sint_inj64)
  then have "lookup_object_block_by_off bs (ALIGN_DOWN (off + of_nat k) OSDS_BLOCK_SIZE) = Some b"
    using lookup_mem [OF assms(1,2)] by simp
  then show ?thesis by (simp add: spec_read_byte_def unat_inblk)
qed

lemma memset_nothing: "memset buf d c 0 = buf"
  by (rule ext) (auto simp add: memset_def)

lemma memcpy_nothing: "memcpy buf d src s 0 = buf"
  by (rule ext) (auto simp add: memcpy_def)

lemma uint_min: "uint (min a b) = min (uint a) (uint (b :: 'a::len word))"
  by (simp add: min_def word_le_def)

lemma read_zero_hole_eq:
  assumes "d = nat (min (max (sint (b_off blk) - sint off) 0) (uint len))"
  shows "read_zero_hole blk (buf, len, oi, off) =
           (memset buf (unat oi) 0 d, len - of_nat d, oi + of_nat d, off + of_nat d)"
proof (cases "sint off < sint (b_off blk)")
  case True
  define lz where "lz = min (b_off blk - off) len"
  have "uint (b_off blk - off) = sint (b_off blk) - sint off" using True by (simp add: uint_diff64)
  then have "uint lz = min (sint (b_off blk) - sint off) (uint len)" by (simp add: lz_def uint_min)
  then have "int d = uint lz" using True assms by simp
  then have "d = nat (uint lz)" by linarith
  then have d: "d = unat lz" by (simp only: unat_eq_nat_uint)
  then have w: "of_nat d = lz" by simp
  have w32: "(of_nat d :: 32 word) = ucast lz" using d by simp
  show ?thesis using True d w w32 by (simp add: read_zero_hole_def Let_def lz_def [symmetric])
next
  case False
  then have "d = 0" using assms by simp
  then show ?thesis using False by (simp add: read_zero_hole_def memset_nothing)
qed

lemma read_copy_block_eq:
  assumes "c = nat (min (65536 - sint off mod 65536) (uint len))"
  shows "read_copy_block blk (buf, len, oi, off) =
           (memcpy buf (unat oi) (b_page blk) (nat (sint off mod 65536)) c,
            len - of_nat c, oi + of_nat c, off + of_nat c)"
proof (cases "len = 0")
  case True
  then have "c = 0" using assms by simp
  then show ?thesis using True by (simp add: read_copy_block_def memcpy_nothing)
next
  case False
  define ib where "ib = off AND NOT OSDS_BLOCK_MASK"
  define lc where "lc = min (OSDS_BLOCK_SIZE - ib) len"
  have ui: "uint ib = sint off mod 65536" by (simp add: ib_def block_mask_val uint_low sint_mod)
  have "uint ib \<le> 65536" using ui by (simp add: pos_mod_bound less_imp_le)
  then have "uint (OSDS_BLOCK_SIZE - ib) = 65536 - uint ib"
    by (simp add: uint_sub_if' block_size_val)
  then have "uint lc = min (65536 - sint off mod 65536) (uint len)" using ui by (simp add: lc_def uint_min)
  then have "int c = uint lc" using assms by simp
  then have "c = nat (uint lc)" by linarith
  then have c: "c = unat lc" by (simp only: unat_eq_nat_uint)
  then have w: "of_nat c = lc" by simp
  have w32: "(of_nat c :: 32 word) = ucast lc" using c by simp
  have "unat ib = nat (sint off mod 65536)" using ui by (simp only: unat_eq_nat_uint)
  then show ?thesis using False c w w32
    by (simp add: read_copy_block_def Let_def ib_def [symmetric] lc_def [symmetric])
qed

lemma unat_sub_nat:
  assumes "d \<le> unat (len :: 64 word)"
  shows "unat (len - of_nat d) = unat len - d"
proof -
  have "d < 2 ^ 64" using assms unsigned_less [of len, where 'a = nat] by simp
  then have u: "unat (of_nat d :: 64 word) = d" by (simp add: unat_of_nat)
  then have "(of_nat d :: 64 word) \<le> len" using assms by (simp add: word_le_nat_alt)
  then show ?thesis using u by (simp add: unat_sub)
qed

lemma unat_add_nat32:
  assumes "unat (oi :: 32 word) + d < 2 ^ 32"
  shows "unat (oi + of_nat d) = unat oi + d"
proof -
  have "d < 2 ^ 32" using assms by simp
  then have u: "unat (of_nat d :: 32 word) = d" by (simp add: unat_of_nat)
  then have "unat oi + unat (of_nat d :: 32 word) < 2 ^ LENGTH(32)" using assms by simp
  then have "unat (oi + of_nat d) = unat oi + unat (of_nat d :: 32 word)" by (simp only: unat_add_lem)
  then show ?thesis using u by simp
qed

lemma read_loop_correct:
  assumes inv: "blocks_inv blocks"
  shows "blocks = pre @ bs \<Longrightarrow>
    (\<forall>b \<in> set pre. sint (b_off b) < sint off - sint off mod 65536) \<Longrightarrow>
    (\<forall>b \<in> set bs. sint off - sint off mod 65536 \<le> sint (b_off b)) \<Longrightarrow>
    sint blk_off \<le> sint off - sint off mod 65536 \<Longrightarrow>
    sint off + uint len < 2 ^ 63 \<Longrightarrow>
    unat oi + unat len < 2 ^ 32 \<Longrightarrow>
    \<exists>buf' len' oi' off'. read_loop bs blk_off (buf, len, oi, off) = Some (buf', len', oi', off') \<and>
       (\<forall>k < unat oi. (if len' \<noteq> 0 then memset buf' (unat oi') 0 (unat len') else buf') k = buf k) \<and>
       (\<forall>j < unat len. (if len' \<noteq> 0 then memset buf' (unat oi') 0 (unat len') else buf') (unat oi + j) =
                        spec_read_byte blocks off j)"
proof (induction bs arbitrary: pre buf len oi off)
  case Nil
  have h: "spec_read_byte blocks off j = 0" if "j < unat len" for j
  proof (rule spec_read_hole)
    have s: "sint (off + of_nat j) = sint off + int j"
      using sint_add_nat [of j len off] that Nil.prems(5) by simp
    have "sint off - sint off mod 65536 \<le> sint (off + of_nat j) - sint (off + of_nat j) mod 65536"
      unfolding s by (rule floor_mono) simp
    then show "\<forall>b \<in> set blocks. sint (b_off b) \<noteq> sint (off + of_nat j) - sint (off + of_nat j) mod 65536"
      using Nil.prems(1,2) by fastforce
  qed
  show ?case using h by (auto simp add: memset_def)
next
  case (Cons blk rest)
  note prems = Cons.prems
  show ?case
  proof (cases "len = 0")
    case True
    then show ?thesis by simp
  next
    case l0: False
    define X where "X = sint off"
    define B where "B = sint (b_off blk)"
    define U where "U = unat len"
    have Upos: "0 < U" using l0 by (simp add: U_def unat_gt_0)
    have uU: "uint len = int U" by (simp add: U_def)
    have XU: "X + int U < 2 ^ 63" using prems(5) by (simp add: X_def uU)
    have aB: "65536 dvd B"
      using blocks_inv_aligned [OF inv, of blk] prems(1) by (simp add: B_def block_size_val)
    have P3: "X - X mod 65536 \<le> B" using prems(3) by (simp add: X_def B_def)
    have nobug: "\<not> sint (b_off blk) < sint blk_off" using prems(3,4) by fastforce
    define d where "d = nat (min (max (B - X) 0) (int U))"
    define c where "c = nat (min (65536 - (X + int d) mod 65536) (int U - int d))"
    have dU: "d \<le> U" by (simp add: d_def)
    have cU: "c \<le> U - d" by (simp add: c_def)
    define buf1 where "buf1 = memset buf (unat oi) 0 d"
    define len1 where "len1 = len - of_nat d"
    define oi1 where "oi1 = oi + (of_nat d :: 32 word)"
    define off1 where "off1 = off + of_nat d"
    have z: "read_zero_hole blk (buf, len, oi, off) = (buf1, len1, oi1, off1)"
      unfolding buf1_def len1_def oi1_def off1_def
      by (rule read_zero_hole_eq) (simp add: d_def B_def X_def uU)
    have ul1: "unat len1 = U - d" unfolding len1_def U_def using dU unat_sub_nat by (simp add: U_def)
    have uo1: "unat oi1 = unat oi + d" unfolding oi1_def
      using prems(6) dU by (intro unat_add_nat32) (simp add: U_def)
    have X1: "sint off1 = X + int d" unfolding off1_def X_def
      using sint_add_nat [of d len off] dU prems(5) by (simp add: U_def)
    have uil1: "uint len1 = int U - int d" using ul1 dU unfolding uint_nat by simp
    define buf2 where "buf2 = memcpy buf1 (unat oi1) (b_page blk) (nat (sint off1 mod 65536)) c"
    define len2 where "len2 = len1 - of_nat c"
    define oi2 where "oi2 = oi1 + (of_nat c :: 32 word)"
    define off2 where "off2 = off1 + of_nat c"
    have cp: "read_copy_block blk (buf1, len1, oi1, off1) = (buf2, len2, oi2, off2)"
      unfolding buf2_def len2_def oi2_def off2_def
      by (rule read_copy_block_eq) (simp add: c_def X1 uil1)
    have ul2: "unat len2 = U - d - c" unfolding len2_def using cU unat_sub_nat [of c len1] ul1 by simp
    have uo2: "unat oi2 = unat oi + d + c" unfolding oi2_def
      using prems(6) dU cU uo1 unat_add_nat32 [of oi1 c] by (simp add: U_def)
    have X2: "sint off2 = X + int d + int c" unfolding off2_def
      using sint_add_nat [of c len1 off1] cU ul1 X1 uil1 XU by simp
    have w2: "off2 = off + of_nat (d + c)" by (simp add: off2_def off1_def)
    have cover: "B = (X + int d) - (X + int d) mod 65536" if "d < U"
    proof (cases "X < B")
      case True
      then have "int d = B - X" using that unfolding d_def by linarith
      then have "X + int d = B" by simp
      then show ?thesis using aB by (simp add: dvd_eq_mod_eq_0)
    next
      case False
      then have d0: "d = 0" by (simp add: d_def)
      have "B \<le> X - X mod 65536" using False aB by (intro floor_le) simp_all
      then show ?thesis using P3 d0 by simp
    qed
    have cpos: "0 < c" if "d < U"
    proof -
      have "(X + int d) mod 65536 < 65536" by simp
      then show ?thesis using that by (simp add: c_def)
    qed
    have in_blk: "B \<le> X + int j \<and> X + int j < B + 65536 \<and>
        (X + int j) mod 65536 = (X + int d) mod 65536 + (int j - int d)"
      if "d \<le> j" "j < d + c" for j
    proof -
      have dl: "d < U" using that cU by linarith
      have m0: "0 \<le> (X + int d) mod 65536" by simp
      have cb: "int c \<le> 65536 - (X + int d) mod 65536" using dl by (simp add: c_def)
      have b: "B \<le> X + int j" "X + int j < B + 65536" using cover [OF dl] that cb m0 by linarith+
      from floor_in [OF aB b] cover [OF dl] show ?thesis using b by linarith
    qed
    have spec_hole: "spec_read_byte blocks off j = 0" if "j < d" for j
    proof (rule spec_read_hole)
      have jU: "j \<le> unat len" using that dU by (simp add: U_def)
      have s: "sint (off + of_nat j) = X + int j"
        using sint_add_nat [OF jU prems(5)] by (simp add: X_def)
      have dpos: "0 < d" using that by simp
      then have XB: "X + int j < B" using that unfolding d_def by linarith
      have f1: "X - X mod 65536 \<le> (X + int j) - (X + int j) mod 65536" by (rule floor_mono) simp
      have f2: "(X + int j) - (X + int j) mod 65536 \<le> X + int j" by simp
      have srt: "\<forall>b \<in> set rest. B < sint (b_off b)"
        using inv prems(1) by (auto simp add: blocks_inv_def B_def sorted_wrt_append)
      have "sint (b_off b) \<noteq> (X + int j) - (X + int j) mod 65536" if "b \<in> set blocks" for b
      proof -
        from that prems(1) consider "b \<in> set pre" | "b = blk" | "b \<in> set rest" by auto
        then show ?thesis
        proof cases
          case 1
          then have "sint (b_off b) < X - X mod 65536" using prems(2) by (simp add: X_def)
          then show ?thesis using f1 by linarith
        next
          case 2
          then show ?thesis using XB f2 by (simp add: B_def)
        next
          case 3
          then have "B < sint (b_off b)" using srt by simp
          then show ?thesis using XB f2 by linarith
        qed
      qed
      then show "\<forall>b \<in> set blocks. sint (b_off b) \<noteq> sint (off + of_nat j) - sint (off + of_nat j) mod 65536"
        unfolding s by simp
    qed
    have spec_blk: "spec_read_byte blocks off j = b_page blk (nat (sint off1 mod 65536) + (j - d))"
      if "d \<le> j" "j < d + c" for j
    proof -
      have jU: "j \<le> unat len" using that cU dU by (simp add: U_def)
      have s: "sint (off + of_nat j) = X + int j"
        using sint_add_nat [OF jU prems(5)] by (simp add: X_def)
      note ib = in_blk [OF that]
      have "(X + int j) mod 65536 = X + int j - B"
        using ib by (intro floor_in [OF aB]) simp_all
      then have fl: "(X + int j) - (X + int j) mod 65536 = B" by linarith
      have mem: "blk \<in> set blocks" using prems(1) by simp
      have "spec_read_byte blocks off j = b_page blk (nat (sint (off + of_nat j) mod 65536))"
        by (rule spec_read_block [OF inv mem]) (simp add: s fl B_def)
      moreover have "nat ((X + int j) mod 65536) = nat ((X + int d) mod 65536) + (j - d)"
        using ib that by (simp add: nat_add_distrib)
      ultimately show ?thesis by (simp add: s X1)
    qed
    have b2_low: "buf2 k = buf k" if "k < unat oi" for k
      using that by (simp add: buf2_def buf1_def memcpy_def memset_def uo1)
    have b2_hole: "buf2 (unat oi + j) = 0" if "j < d" for j
      using that by (simp add: buf2_def buf1_def memcpy_def memset_def uo1)
    have b2_blk: "buf2 (unat oi + j) = b_page blk (nat (sint off1 mod 65536) + (j - d))"
      if "d \<le> j" "j < d + c" for j
      using that by (simp add: buf2_def memcpy_def uo1)
    have b2_spec: "buf2 (unat oi + j) = spec_read_byte blocks off j" if "j < d + c" for j
      using that b2_hole spec_hole b2_blk spec_blk by (cases "j < d") simp_all
    have unf: "read_loop (blk # rest) blk_off (buf, len, oi, off) =
        (if len2 \<noteq> 0 then read_loop rest blk_off (buf2, len2, oi2, off2) else Some (buf2, len2, oi2, off2))"
      using l0 nobug z cp by (simp add: Let_def)
    show ?thesis
    proof (cases "len2 = 0")
      case True
      then have "U - d - c = 0" using ul2 by simp
      then have "U = d + c" using dU cU by linarith
      then show ?thesis using unf True b2_low b2_spec by (simp add: U_def)
    next
      case False
      then have rem: "d + c < U" using ul2 dU cU by (simp add: unat_gt_0 [symmetric]) 
      then have dl: "d < U" by simp
      have "int c = 65536 - (X + int d) mod 65536" using rem unfolding c_def by linarith
      then have X2B: "sint off2 = B + 65536" using X2 cover [OF dl] by linarith
      then have A2: "sint off2 - sint off2 mod 65536 = B + 65536" using aB by (simp add: dvd_eq_mod_eq_0 mod_add_self2)
      have p1: "blocks = (pre @ [blk]) @ rest" using prems(1) by simp
      have p2: "\<forall>b \<in> set (pre @ [blk]). sint (b_off b) < sint off2 - sint off2 mod 65536"
        using prems(2) P3 unfolding A2 by (auto simp add: X_def B_def)
      have srt: "\<forall>b \<in> set rest. B < sint (b_off b)"
        using inv prems(1) by (auto simp add: blocks_inv_def B_def sorted_wrt_append)
      have p3: "\<forall>b \<in> set rest. sint off2 - sint off2 mod 65536 \<le> sint (b_off b)"
      proof
        fix b assume b: "b \<in> set rest"
        then have "b \<in> set blocks" using prems(1) by simp
        then have "65536 dvd sint (b_off b)" using blocks_inv_aligned [OF inv] by (simp add: block_size_val)
        then show "sint off2 - sint off2 mod 65536 \<le> sint (b_off b)"
          unfolding A2 using mult_gap [OF _ aB] srt b by simp
      qed
      have p4: "sint blk_off \<le> sint off2 - sint off2 mod 65536" using prems(4) P3 unfolding A2 by (simp add: X_def)
      have uil2: "uint len2 = int U - int d - int c" using ul2 rem unfolding uint_nat by simp
      have p5: "sint off2 + uint len2 < 2 ^ 63" using X2 uil2 XU by simp
      have p6: "unat oi2 + unat len2 < 2 ^ 32" using uo2 ul2 rem prems(6) by (simp add: U_def)
      from Cons.IH [OF p1 p2 p3 p4 p5 p6, of buf2]
      obtain buf' len' oi' off' where r:
        "read_loop rest blk_off (buf2, len2, oi2, off2) = Some (buf', len', oi', off')"
        "\<forall>k < unat oi2. (if len' \<noteq> 0 then memset buf' (unat oi') 0 (unat len') else buf') k = buf2 k"
        "\<forall>j < unat len2. (if len' \<noteq> 0 then memset buf' (unat oi') 0 (unat len') else buf') (unat oi2 + j) =
                        spec_read_byte blocks off2 j"
        by blast
      define fin where "fin = (if len' \<noteq> 0 then memset buf' (unat oi') 0 (unat len') else buf')"
      have low: "fin k = buf k" if "k < unat oi" for k
        using r(2) that b2_low uo2 by (simp add: fin_def)
      have all: "fin (unat oi + j) = spec_read_byte blocks off j" if "j < U" for j
      proof (cases "j < d + c")
        case True
        then have "fin (unat oi + j) = buf2 (unat oi + j)" using r(2) uo2 by (simp add: fin_def)
        then show ?thesis using b2_spec [OF True] by simp
      next
        case False
        define j' where "j' = j - (d + c)"
        have j: "j = d + c + j'" using False by (simp add: j'_def)
        have "j' < unat len2" using that j ul2 by simp
        then have "fin (unat oi2 + j') = spec_read_byte blocks off2 j'" using r(3) by (simp add: fin_def)
        moreover have "off2 + of_nat j' = off + of_nat j" by (simp add: w2 j)
        then have "spec_read_byte blocks off2 j' = spec_read_byte blocks off j"
          by (simp only: spec_read_byte_def)
        moreover have "unat oi2 + j' = unat oi + j" using uo2 j by simp
        ultimately show ?thesis by simp
      qed
      show ?thesis using unf False r(1) low all by (simp add: fin_def U_def)
    qed
  qed
qed

lemma lookup_right_block_split:
  "sorted_wrt (\<lambda>a b. sint a < sint b) (map b_off bs) \<Longrightarrow>
   \<exists>pre. bs = pre @ lookup_right_block bs k \<and> (\<forall>b \<in> set pre. sint (b_off b) < sint k) \<and>
         (\<forall>b \<in> set (lookup_right_block bs k). sint k \<le> sint (b_off b))"
proof (induction bs)
  case Nil
  then show ?case by simp
next
  case (Cons a bs)
  show ?case
  proof (cases "sint k \<le> sint (b_off a)")
    case True
    then have "\<forall>b \<in> set (a # bs). sint k \<le> sint (b_off b)" using Cons.prems by fastforce
    then show ?thesis using True by (intro exI [of _ "[]"]) simp
  next
    case False
    from Cons.IH Cons.prems obtain pre where p: "bs = pre @ lookup_right_block bs k"
      "\<forall>b \<in> set pre. sint (b_off b) < sint k" "\<forall>b \<in> set (lookup_right_block bs k). sint k \<le> sint (b_off b)"
      by auto
    show ?thesis using False p by (intro exI [of _ "a # pre"]) auto
  qed
qed

lemma alloc_bvec_code: "alloc_bvec st n = (r, st1, pa) \<Longrightarrow> r = 0 \<or> r = - ENOMEM"
  by (auto simp add: alloc_bvec_def split: prod.splits bool.splits)

lemma read_big_example:
  "read_reply (handle_osd_op_read (srv_with objBig) req0 (read_op 0 4294967297)) 0 = Some (0, 1, Some 0x42)"
  by (simp add: handle_osd_op_read_def srv_with_def objBig_def eval_defs alloc_bvec_def read_reply_def
      read_zero_hole_def read_copy_block_def memset_def memcpy_def page_address_def)

section \<open>Claims\<close>

text \<open>
  C9 (cursor conservation), as amended. The claim as written, "for every cursor state
  and every n, after advance(n) or a copy of n bytes the remaining count has decreased
  by exactly n", fails when n exceeds the remaining count: \<open>iterate_and_advance\<close>
  clamps n to \<open>i->count\<close>. What holds: for every well-formed cursor (its segments hold
  the bytes its count promises; not a pipe) and every n that does not exceed the
  remaining count, \<open>iov_iter_advance\<close> returns and the remaining count has decreased
  by exactly n; a copy of n bytes out of a kernel-segment, page-vector or discard cursor
  returns n and decreases the remaining count by exactly n; and a copy of n bytes, n
  below \<open>2^31\<close>, through any such cursor, user segments included, when
  \<open>raw_copy_from_user\<close> never leaves more bytes than it was asked for, returns some m
  that does not exceed n, and the remaining count has decreased by exactly m (the old
  count is the new count plus m, as numbers).
\<close>

theorem cursor_conservation:
  assumes "iter_wf i" and "n \<le> count i"
  shows "(\<exists>i'. iov_iter_advance i n = Some i' \<and> count i' = count i - n) \<and>
         (itype i \<noteq> ITER_IOVEC \<longrightarrow>
            (\<exists>dst' i'. copy_from_iter_raw U dst to n i = Some (dst', i', n) \<and>
                       count i' = count i - n)) \<and>
         ((\<forall>v. raw_copy_from_user U v \<le> snd (snd v)) \<and> n < 2 ^ 31 \<longrightarrow>
            (\<exists>dst' i' m. copy_from_iter_raw U dst to n i = Some (dst', i', m) \<and> m \<le> n \<and>
                         count i' = count i - m \<and> unat (count i') + unat m = unat (count i)))"
proof -
  have a: "\<exists>i'. iov_iter_advance i n = Some i' \<and> count i' = count i - n"
    using iov_iter_advance_wf [OF assms] by blast
  have m: "min n (count i) = n" using assms(2) by (simp add: min_def)
  have b: "itype i \<noteq> ITER_IOVEC \<Longrightarrow>
      \<exists>dst' i'. copy_from_iter_raw U dst to n i = Some (dst', i', n) \<and> count i' = count i - n"
    using copy_from_iter_raw_wf [OF assms(1), of U dst to n] m by auto
  have c: "\<exists>dst' i' m. copy_from_iter_raw U dst to n i = Some (dst', i', m) \<and> m \<le> n \<and>
      count i' = count i - m \<and> unat (count i') + unat m = unat (count i)"
    if u: "\<forall>v. raw_copy_from_user U v \<le> snd (snd v)" and l: "n < 2 ^ 31"
  proof -
    have "\<exists>dst' i' m. copy_from_iter_raw U dst to n i = Some (dst', i', m) \<and> m \<le> n \<and>
      count i' = count i - m"
    proof (cases "itype i = ITER_IOVEC")
      case True
      from copy_from_iter_raw_iovec [OF assms(1) True u l, of dst to] m show ?thesis by simp
    next
      case False
      then show ?thesis using b by auto
    qed
    then obtain dst' i' k where r: "copy_from_iter_raw U dst to n i = Some (dst', i', k)" "k \<le> n"
      "count i' = count i - k" by blast
    have "k \<le> count i" using r(2) assms(2) by simp
    then have "unat (count i - k) + unat k = unat (count i)" by (simp add: unat_sub word_le_nat_alt)
    then show ?thesis using r by auto
  qed
  from a b c show ?thesis by blast
qed

theorem cursor_conservation_witness:
  "iter_wf ucursor \<and> (4::size_t) \<le> count ucursor \<and>
   (\<forall>v. raw_copy_from_user uacc1 v \<le> snd (snd v)) \<and> (4::size_t) < 2 ^ 31 \<and>
   map_option count (iov_iter_advance ucursor 4) = Some 1 \<and>
   map_option (\<lambda>(d, i', m). (count i', m)) (copy_from_iter_raw uacc1 zero_page 0 4 ucursor) = Some (3, 2) \<and>
   map_option (\<lambda>(d, i', m). (count i', m))
     (copy_from_iter_raw uacc1 zero_page 0 4 (ucursor\<lparr>itype := ITER_KVEC\<rparr>)) = Some (1, 4)"
proof -
  have h1: "iter_wf ucursor" by (simp add: iter_wf_def walk_wf_def ucursor_def segs_bytes_def)
  have h2: "4 \<le> count ucursor" by (simp add: ucursor_def)
  have h3: "\<forall>v. raw_copy_from_user uacc1 v \<le> snd (snd v)"
    by (auto simp add: uacc1_def word_le_nat_alt unat_eq_0 Suc_le_eq unat_gt_0)
  have h4: "(4::size_t) < 2 ^ 31" by simp
  from cursor_conservation [OF h1 h2, of uacc1 zero_page 0] h3 h4
  obtain i1 d2 i2 m2 where
    r1: "iov_iter_advance ucursor 4 = Some i1" "count i1 = count ucursor - 4"
    and r2: "copy_from_iter_raw uacc1 zero_page 0 4 ucursor = Some (d2, i2, m2)" "m2 \<le> 4"
       "unat (count i2) + unat m2 = unat (count ucursor)"
    by blast
  have e2: "map_option (\<lambda>(d, i', m). (count i', m)) (copy_from_iter_raw uacc1 zero_page 0 4 ucursor) = Some (3, 2)"
    by (simp add: copy_from_iter_raw_def iterate_and_advance_def iterate_iovec_def ucursor_def uacc1_def
        copyin_def int_to_size_t_def Let_def ptr_diff_def)
  have e3: "map_option (\<lambda>(d, i', m). (count i', m))
     (copy_from_iter_raw uacc1 zero_page 0 4 (ucursor\<lparr>itype := ITER_KVEC\<rparr>)) = Some (1, 4)"
    by (simp add: copy_from_iter_raw_def iterate_and_advance_def iterate_kvec_def ucursor_def
        copy_chunk_def Let_def ptr_diff_def)
  from r1 have e1: "map_option count (iov_iter_advance ucursor 4) = Some 1" by (simp add: ucursor_def)
  from h1 h2 h3 h4 e1 e2 e3 show ?thesis by blast
qed

theorem cursor_conservation_counterexample:
  "map_option count (iov_iter_advance
      (iov_iter_kvec [\<lparr>seg_len = 3, seg_base = zero_page\<rparr>] 1 3) 5) = Some 0 \<and>
   count (iov_iter_kvec [\<lparr>seg_len = 3, seg_base = zero_page\<rparr>] 1 3) - 5 \<noteq> 0"
  by (simp add: iov_iter_advance_def iterate_and_advance_def iterate_kvec_def iov_iter_kvec_def Let_def)



text \<open>
  C3 (mtime and size after a write), as amended. The claim as written gives the size
  after a write as \<open>max(previous size, offset + length)\<close>. The code keeps the end of
  the write in the 64-bit \<open>dst_off\<close>, where the sum wraps: a write of two bytes at
  offset \<open>2^64 - 1\<close> to a new object returns 0 and leaves \<open>o_size = 1\<close>. What holds:
  a write of non-zero length that does not take the \<open>NOOP_WRITE\<close> shortcut and returns
  0 has copied all its bytes; afterwards the object of the request exists, its
  \<open>o_mtime\<close> is the request's \<open>mtime\<close> and its \<open>o_size\<close> is the maximum of the size
  it had before (0 for an object the write created) and \<open>extent.offset + extent.length\<close>
  taken modulo \<open>2^64\<close>, which is the sum itself whenever that fits in 64 bits. A READ
  and a STAT that return hand back the object table as it was, so no \<open>o_mtime\<close> and no
  \<open>o_size\<close> changes.
\<close>

theorem write_sets_mtime_and_size:
  "(handle_osd_op_write st req op in_cur = Some (0, st', cur') \<and> extent_length op \<noteq> 0 \<and>
      \<not> (opt_noop_write st \<and> 4096 \<le> extent_length op) \<longrightarrow>
      (\<exists>obj'. s_objects st' (hoid req) = Some obj' \<and> o_mtime obj' = mtime req \<and>
         o_size obj' = max (case s_objects st (hoid req) of None \<Rightarrow> 0 | Some obj \<Rightarrow> o_size obj)
                           (extent_offset op + extent_length op))) \<and>
   (handle_osd_op_read st req op = Some (ret1, st1, op1) \<longrightarrow> s_objects st1 = s_objects st) \<and>
   (handle_osd_op_stat st req op = Some (ret2, st2, op2) \<longrightarrow> s_objects st2 = s_objects st)"
  using handle_osd_op_write_object handle_osd_op_read_objects handle_osd_op_stat_objects
  by blast

theorem write_sets_mtime_and_size_witness:
  "\<exists>st' cur'. handle_osd_op_write srv0 req0 (write_op 65535 3) (data_cursor 65 3) = Some (0, st', cur') \<and>
     extent_length (write_op 65535 3) \<noteq> 0 \<and>
     \<not> (opt_noop_write srv0 \<and> 4096 \<le> extent_length (write_op 65535 3)) \<and>
     (\<exists>obj'. s_objects st' (hoid req0) = Some obj' \<and> o_mtime obj' = \<lparr>tv_sec = 42, tv_nsec = 0\<rparr> \<and>
        o_size obj' = 65538)"
proof -
  from write_example obtain st' cur' where
    e: "handle_osd_op_write srv0 req0 (write_op 65535 3) (data_cursor 65 3) = Some (0, st', cur')"
    by blast
  have h: "extent_length (write_op 65535 3) \<noteq> 0"
    "\<not> (opt_noop_write srv0 \<and> 4096 \<le> extent_length (write_op 65535 3))"
    by (simp_all add: write_op_def zero_op_def srv0_def)
  from write_sets_mtime_and_size [of srv0 req0 "write_op 65535 3" "data_cursor 65 3" st' cur'] e h
  obtain obj' where "s_objects st' (hoid req0) = Some obj'" "o_mtime obj' = mtime req0"
    "o_size obj' = max (case s_objects srv0 (hoid req0) of None \<Rightarrow> 0 | Some obj \<Rightarrow> o_size obj)
                           (extent_offset (write_op 65535 3) + extent_length (write_op 65535 3))"
    by blast
  then have "s_objects st' (hoid req0) = Some obj' \<and> o_mtime obj' = \<lparr>tv_sec = 42, tv_nsec = 0\<rparr> \<and>
        o_size obj' = 65538"
    by (simp add: srv0_def req0_def write_op_def zero_op_def)
  then show ?thesis using e h by blast
qed

theorem write_sets_mtime_and_size_counterexample:
  "size_after (handle_osd_op_write srv0 req0 (write_op (- 1) 2) (data_cursor 65 2)) empty_hoid =
     Some (0, Some 1) \<and>
   s_objects srv0 empty_hoid = None \<and>
   unat (1 :: size_t) \<noteq>
     max 0 (unat (extent_offset (write_op (- 1) 2)) + unat (extent_length (write_op (- 1) 2)))"
  by (simp add: eval_defs write_loop.simps size_after_def)

text \<open>
  C8 (block alignment and no overlap). Start from a server whose object table is empty,
  as \<open>ceph_create_osd_server\<close> leaves it, and dispatch any sequence of messages. If the
  run returns, then for every object of the table every block offset is a multiple of
  \<open>OSDS_BLOCK_SIZE\<close> (64 KiB), and any two distinct blocks \<open>b1\<close>, \<open>b2\<close> of the
  object satisfy \<open>b1.offset + BLOCK_SIZE \<le> b2.offset\<close> or \<open>b2.offset + BLOCK_SIZE \<le>
  b1.offset\<close>, the offsets read as the signed \<open>off_t\<close> they are and the sums taken
  without wrap-around.
\<close>

theorem blocks_aligned_and_disjoint:
  assumes "s_objects st = Map.empty" and "osds_run W st msgs = Some st'"
    and "s_objects st' h = Some obj"
  shows "(\<forall>b \<in> set (o_blocks obj). uint OSDS_BLOCK_SIZE dvd sint (b_off b)) \<and>
         (\<forall>b1 \<in> set (o_blocks obj). \<forall>b2 \<in> set (o_blocks obj). b1 \<noteq> b2 \<longrightarrow>
            sint (b_off b1) + uint OSDS_BLOCK_SIZE \<le> sint (b_off b2) \<or>
            sint (b_off b2) + uint OSDS_BLOCK_SIZE \<le> sint (b_off b1))"
proof -
  have "store_inv st" using assms(1) by (simp add: store_inv_def)
  then have "store_inv st'" using osds_run_store_inv [OF assms(2)] by simp
  then have "blocks_inv (o_blocks obj)" using assms(3) by (simp add: store_inv_def)
  then show ?thesis using blocks_inv_aligned blocks_inv_no_overlap by blast
qed

theorem blocks_aligned_and_disjoint_witness:
  "s_objects srv0 = Map.empty \<and>
   (\<exists>st' obj.
      osds_run wire0 srv0 [msg_of front_write_cross [0x61, 0x62, 0x63], msg_of front_write [0x68, 0x69]] =
        Some st' \<and>
      s_objects st' (empty_hoid\<lparr>hoid_name := [0x58]\<rparr>) = Some obj \<and>
      map b_off (o_blocks obj) = [0, 65536] \<and>
      (\<forall>b \<in> set (o_blocks obj). uint OSDS_BLOCK_SIZE dvd sint (b_off b)) \<and>
      (\<forall>b1 \<in> set (o_blocks obj). \<forall>b2 \<in> set (o_blocks obj). b1 \<noteq> b2 \<longrightarrow>
         sint (b_off b1) + uint OSDS_BLOCK_SIZE \<le> sint (b_off b2) \<or>
         sint (b_off b2) + uint OSDS_BLOCK_SIZE \<le> sint (b_off b1)))"
proof -
  have h: "s_objects srv0 = Map.empty" by (simp add: srv0_def)
  from run_cross_example obtain st' obj where
    r: "osds_run wire0 srv0 [msg_of front_write_cross [0x61, 0x62, 0x63], msg_of front_write [0x68, 0x69]] =
          Some st'"
    and o: "s_objects st' (empty_hoid\<lparr>hoid_name := [0x58]\<rparr>) = Some obj"
    and m: "map b_off (o_blocks obj) = [0, 65536]"
    by (auto simp add: block_offsets_def)
  note c = blocks_aligned_and_disjoint [OF h r o]
  show ?thesis
    by (rule conjI [OF h], rule exI [of _ st'], rule exI [of _ obj], intro conjI, rule r, rule o,
        rule m, rule c [THEN conjunct1], rule c [THEN conjunct2])
qed

text \<open>
  C7 (a created object starts empty). \<open>handle_osd_op_write\<close> creates the object with
  \<open>kmalloc\<close> and then assigns \<open>o_size = 0\<close> and \<open>o_blocks = RB_ROOT\<close>; it never assigns
  \<open>o_mtime\<close>. On a server whose free memory holds the time \<open>(7, 7)\<close>, the object created
  for a WRITE to an identity that is not in the table has size 0, no blocks, and the time
  \<open>(7, 7)\<close>, not zero. When the allocation of the first block then fails, the write
  returns \<open>-ENOMEM\<close> and the object stays in the table with that time.
\<close>

theorem created_object_mtime_not_set:
  "fst (find_or_create_object srv0 req0) =
     Some \<lparr>o_hoid = empty_hoid, o_blocks = [], o_size = 0, o_mtime = \<lparr>tv_sec = 7, tv_nsec = 7\<rparr>\<rparr> \<and>
   map_option (\<lambda>(r, st, c). (r, s_objects st empty_hoid))
     (handle_osd_op_write (srv0\<lparr>alloc_plan := [True, False]\<rparr>) req0 (write_op 0 2) (data_cursor 0x61 2)) =
     Some (- ENOMEM,
           Some \<lparr>o_hoid = empty_hoid, o_blocks = [], o_size = 0, o_mtime = \<lparr>tv_sec = 7, tv_nsec = 7\<rparr>\<rparr>)"
  by (simp add: eval_defs write_loop.simps ENOMEM_def)

text \<open>
  C5 (the reply of STAT). \<open>handle_osd_op_stat\<close> gives \<open>ceph_encode_64\<close> the address of
  the reply page where it expects the address of the write pointer, so the size is stored
  wherever the uninitialised first word of the page points, and the write pointer \<open>p\<close>
  stays at the start of the page, where the timestamp is then written. For the object
  \<open>obj5\<close> (size 5, modified at \<open>(42, 9)\<close>): on a server whose fresh pages hold bytes
  \<open>0xEE\<close> the store of the size goes through the pointer \<open>0xEEEEEEEEEEEEEEEE\<close> and STAT
  has no defined result; on a server where that word holds the address of the page's
  second word, STAT returns 0 with \<open>outdata_len = 16\<close> and the sixteen bytes are the
  timestamp followed by the size. In no case is the buffer the size followed by the
  timestamp. For an identity that is not in the table STAT returns \<open>-ENOENT\<close> with no
  reply data.
\<close>

theorem stat_reply_timestamp_first:
  "handle_osd_op_stat srv5 req0 stat_op = None \<and>
   stat_reply (handle_osd_op_stat srv5p req0 stat_op) =
     Some (0, 16, Some [42, 0, 0, 0, 9, 0, 0, 0, 5, 0, 0, 0, 0, 0, 0, 0]) \<and>
   stat_reply (handle_osd_op_stat srv0 req0 stat_op) = Some (- ENOENT, 0, None)"
  by (simp add: stat_defs)

text \<open>
  C4 (a request that claims more than 16 ops). For the front \<open>front_17_ops\<close>, whose
  \<open>num_ops\<close> field is 17, \<open>ceph_decode_msg_osd_op\<close> returns 0 with \<open>num_ops = 17\<close>: the
  check \<open>num_ops > CEPH_OSD_MAX_OPS\<close> jumps to \<open>err\<close>, which returns \<open>ret\<close>, and \<open>ret\<close>
  is 0 there. \<open>handle_osd_ops\<close> therefore does not drop the message: it runs the op loop
  and builds a reply from 17 entries of the 16-entry array \<open>req.ops\<close>, which C leaves
  undefined (\<open>None\<close>).
\<close>

theorem decoder_accepts_17_ops:
  "map_option (\<lambda>(ret, req, st). (ret, num_ops req))
     (ceph_decode_msg_osd_op wire0 srv0 (msg_of front_17_ops []) (stale_req srv0)) = Some (0, 17) \<and>
   handle_osd_ops wire0 srv0 (msg_of front_17_ops []) = None"
  by (simp add: run_defs wire_defs eval_defs front_17_ops_def
      decode_ops_loop.simps osd_ops_loop.simps write_loop.simps)

text \<open>
  C6 (read past the end). Take a request as \<open>ceph_decode_msg_osd_op\<close> returns it and one
  of its ops, a READ whose offset is at or beyond the size of the object the request
  names. On any server that holds that object, \<open>handle_osd_op\<close> returns 0 for the op;
  \<open>outdata_len\<close> is 0 and there is no reply data, as \<open>init_msg_osd_op\<close> left them,
  so the op is encoded with a payload length of 0; \<open>rval\<close> is 0; and the server (the
  object table, the allocator, all memory) and the input cursor are exactly as before.
\<close>

theorem read_past_eof_empty:
  assumes "ceph_decode_msg_osd_op W st0 msg r0 = Some (ret, req, st1)"
    and "i < CEPH_OSD_MAX_OPS"
    and "opcode (ops req ! i) = CEPH_OSD_OP_READ"
    and "s_objects st (hoid req) = Some obj"
    and "o_size obj \<le> extent_offset (ops req ! i)"
  shows "\<exists>op'. handle_osd_op st req (ops req ! i) cur = Some (0, st, op', cur) \<and>
           outdata_len op' = 0 \<and> outdata op' = None \<and> rval op' = 0 \<and>
           snd (osd_req_encode_op op') = 0"
proof -
  from ceph_decode_msg_osd_op_fresh [OF assms(1)] assms(2)
  have "fresh_op (ops req ! i)" by simp
  then show ?thesis using assms(3,4,5)
    by (simp add: handle_osd_op_def handle_osd_op_read_def fresh_op_def osd_req_encode_op_def)
qed

theorem read_past_eof_empty_witness:
  "\<exists>req. ceph_decode_msg_osd_op wire0 srvX (msg_of front_read_eof []) req0 = Some (0, req, srvX) \<and>
     (0::nat) < CEPH_OSD_MAX_OPS \<and> ops req ! 0 = read_op 5 10 \<and>
     s_objects srvX (hoid req) = Some (obj5\<lparr>o_hoid := hoidX\<rparr>) \<and>
     o_size (obj5\<lparr>o_hoid := hoidX\<rparr>) = 5 \<and>
     (\<exists>op'. handle_osd_op srvX req (ops req ! 0) (data_cursor 0 0) = Some (0, srvX, op', data_cursor 0 0) \<and>
            outdata_len op' = 0 \<and> outdata op' = None \<and> rval op' = 0)"
proof -
  define req where "req = req0\<lparr>num_ops := 1, epoch := 1,
                    ops := (replicate CEPH_OSD_MAX_OPS zero_op)[0 := read_op 5 10],
                    spgid_shard := 255, hoid := hoidX\<rparr>"
  have d: "ceph_decode_msg_osd_op wire0 srvX (msg_of front_read_eof []) req0 = Some (0, req, srvX)"
    using decode_read_eof_example by (simp add: req_def)
  have h1: "(0::nat) < CEPH_OSD_MAX_OPS" by (simp add: CEPH_OSD_MAX_OPS_def)
  have h2: "ops req ! 0 = read_op 5 10" by (simp add: req_def CEPH_OSD_MAX_OPS_def)
  then have h2': "opcode (ops req ! 0) = CEPH_OSD_OP_READ" by (simp add: read_op_def)
  have h3: "s_objects srvX (hoid req) = Some (obj5\<lparr>o_hoid := hoidX\<rparr>)" by (simp add: req_def srvX_def)
  have h4: "o_size (obj5\<lparr>o_hoid := hoidX\<rparr>) = 5" by (simp add: obj5_def)
  have h5: "o_size (obj5\<lparr>o_hoid := hoidX\<rparr>) \<le> extent_offset (ops req ! 0)"
    using h2 h4 by (simp add: read_op_def)
  from read_past_eof_empty [OF d h1 h2' h3 h5, of "data_cursor 0 0"]
  have "\<exists>op'. handle_osd_op srvX req (ops req ! 0) (data_cursor 0 0) = Some (0, srvX, op', data_cursor 0 0) \<and>
            outdata_len op' = 0 \<and> outdata op' = None \<and> rval op' = 0"
    by blast
  then show ?thesis using d h1 h2 h3 h4 by blast
qed



text \<open>
  C2 (what a read returns), as amended. The claim as written fails for reads of 4 GiB
  or more: \<open>outdata_len\<close> has 32 bits and \<open>off_inpg\<close>, the write position in the
  result, is an \<open>unsigned\<close>. For the object \<open>objBig\<close> a read of all its
  \<open>2^32 + 1\<close> bytes returns \<open>outdata_len = 1\<close>, and byte 0 of the result is the byte
  of the block at \<open>2^32\<close>, not the byte of the block at 0. What holds: let the object's
  block map be ordered and aligned (as every table built by messages has it), let
  \<open>offset < size\<close>, let \<open>L = min(length, size - offset)\<close> be below \<open>2^32\<close>, and let
  the range not run past the largest signed offset. Then the read returns, with 0 when
  the reply page can be allocated and \<open>-ENOMEM\<close> otherwise; on 0, \<open>outdata_len\<close> is
  \<open>L\<close> and byte \<open>k\<close> of the result, for every \<open>k < L\<close>, is zero when no block covers
  position \<open>offset + k\<close> and the covering block's byte at the in-block offset otherwise.
\<close>

theorem read_returns_object_bytes:
  assumes "s_objects st (hoid req) = Some obj" and "blocks_inv (o_blocks obj)"
    and "extent_offset op < o_size obj"
    and "L = min (extent_length op) (o_size obj - extent_offset op)"
    and "L < 2 ^ 32" and "sint (extent_offset op) + uint L < 2 ^ 63"
  shows "\<exists>ret st1 op1. handle_osd_op_read st req op = Some (ret, st1, op1) \<and>
           (ret = 0 \<or> ret = - ENOMEM) \<and> ret = fst (alloc_bvec st L) \<and>
           (ret = 0 \<longrightarrow>
              unat (outdata_len op1) = unat L \<and>
              (\<exists>buf. outdata op1 = Some buf \<and>
                 (\<forall>k < unat L. buf k = spec_read_byte (o_blocks obj) (extent_offset op) k)))"
proof -
  obtain r st1 pa where a: "alloc_bvec st L = (r, st1, pa)" by (metis prod_cases3)
  note rc = alloc_bvec_code [OF a]
  have ns: "\<not> o_size obj \<le> extent_offset op" using assms(3) by simp
  show ?thesis
  proof (cases "r = 0")
    case False
    then show ?thesis using assms(1) ns a rc assms(4) by (simp add: handle_osd_op_read_def Let_def)
  next
    case True
    define off where "off = extent_offset op"
    define blk_off where "blk_off = ALIGN_DOWN off OSDS_BLOCK_SIZE"
    from lookup_right_block_split [of "o_blocks obj" blk_off] assms(2)
    obtain pre where p: "o_blocks obj = pre @ lookup_right_block (o_blocks obj) blk_off"
      "\<forall>b \<in> set pre. sint (b_off b) < sint blk_off"
      "\<forall>b \<in> set (lookup_right_block (o_blocks obj) blk_off). sint blk_off \<le> sint (b_off b)"
      by (auto simp add: blocks_inv_def)
    have sb: "sint blk_off = sint off - sint off mod 65536" by (simp add: blk_off_def sint_align)
    have uL: "unat L < 2 ^ 32" using assms(5) by (simp add: word_less_nat_alt)
    have p6: "unat (0 :: u32) + unat L < 2 ^ 32" using uL by simp
    from read_loop_correct [OF assms(2) p(1) p(2) [unfolded sb] p(3) [unfolded sb] _ _ p6,
        of blk_off "page_address (ram st1) pa"] sb assms(6)
    obtain buf' len' oi' off' where rl:
      "read_loop (lookup_right_block (o_blocks obj) blk_off) blk_off (page_address (ram st1) pa, L, 0, off) =
         Some (buf', len', oi', off')"
      "\<forall>j < unat L. (if len' \<noteq> 0 then memset buf' (unat oi') 0 (unat len') else buf') (unat (0 :: u32) + j) =
                        spec_read_byte (o_blocks obj) off j"
      by (auto simp add: off_def)
    have "unat (ucast L :: u32) = take_bit LENGTH(32) (unat L)" by (rule unsigned_ucast_eq)
    then have ol: "unat (ucast L :: u32) = unat L" using uL by (simp add: take_bit_nat_eq_self)
    have "handle_osd_op_read st req op =
        Some (0, st1, op\<lparr>outdata_len := ucast L,
                          outdata := Some (if len' \<noteq> 0 then memset buf' (unat oi') 0 (unat len') else buf')\<rparr>)"
      using assms(1) ns a True rl(1) assms(4)
      by (simp add: handle_osd_op_read_def Let_def off_def blk_off_def)
    then show ?thesis using rl(2) ol a True by (simp add: off_def)
  qed
qed

theorem read_returns_object_bytes_witness:
  "s_objects (srv_with objAB) (hoid req0) = Some objAB \<and> blocks_inv (o_blocks objAB) \<and>
   extent_offset (read_op 65530 200000) < o_size objAB \<and>
   min (extent_length (read_op 65530 200000)) (o_size objAB - extent_offset (read_op 65530 200000)) = 65642 \<and>
   (\<exists>st1 op1 buf. handle_osd_op_read (srv_with objAB) req0 (read_op 65530 200000) = Some (0, st1, op1) \<and>
      unat (outdata_len op1) = 65642 \<and> outdata op1 = Some buf \<and>
      buf 5 = 0x41 \<and> buf 6 = 0 \<and> buf 65541 = 0 \<and> buf 65542 = 0x42 \<and> buf 65641 = 0x42)"
proof -
  have h1: "s_objects (srv_with objAB) (hoid req0) = Some objAB"
    by (simp add: srv_with_def req0_def)
  have h2: "blocks_inv (o_blocks objAB)"
    by (simp add: blocks_inv_def objAB_def block_mask_val mask_eq_exp_minus_1)
  have h3: "extent_offset (read_op 65530 200000) < o_size objAB"
    by (simp add: read_op_def zero_op_def objAB_def)
  have h4: "min (extent_length (read_op 65530 200000)) (o_size objAB - extent_offset (read_op 65530 200000)) = 65642"
    by (simp add: read_op_def zero_op_def objAB_def)
  have h5: "(65642 :: size_t) < 2 ^ 32" by simp
  have h6: "sint (extent_offset (read_op 65530 200000)) + uint (65642 :: size_t) < 2 ^ 63"
    by (simp add: read_op_def zero_op_def)
  have al: "fst (alloc_bvec (srv_with objAB) 65642) = 0"
    by (simp add: alloc_bvec_def alloc_def srv_with_def srv0_def)
  from read_returns_object_bytes [OF h1 h2 h3 h4 [symmetric] h5 h6] al
  obtain st1 op1 buf where r: "handle_osd_op_read (srv_with objAB) req0 (read_op 65530 200000) = Some (0, st1, op1)"
    "unat (outdata_len op1) = unat (65642 :: size_t)" "outdata op1 = Some buf"
    "\<forall>k < unat (65642 :: size_t). buf k = spec_read_byte (o_blocks objAB) (extent_offset (read_op 65530 200000)) k"
    by auto
  have sp: "spec_read_byte (o_blocks objAB) (extent_offset (read_op 65530 200000)) 5 = 0x41"
    "spec_read_byte (o_blocks objAB) (extent_offset (read_op 65530 200000)) 6 = 0"
    "spec_read_byte (o_blocks objAB) (extent_offset (read_op 65530 200000)) 65541 = 0"
    "spec_read_byte (o_blocks objAB) (extent_offset (read_op 65530 200000)) 65542 = 0x42"
    "spec_read_byte (o_blocks objAB) (extent_offset (read_op 65530 200000)) 65641 = 0x42"
    by (simp_all add: spec_read_byte_def objAB_def eval_defs)
  have "buf 5 = 0x41 \<and> buf 6 = 0 \<and> buf 65541 = 0 \<and> buf 65542 = 0x42 \<and> buf 65641 = 0x42"
    using r(4) sp by simp
  then show ?thesis using h1 h2 h3 h4 r(1,2,3) by simp
qed

theorem read_returns_object_bytes_counterexample:
  "s_objects (srv_with objBig) (hoid req0) = Some objBig \<and> blocks_inv (o_blocks objBig) \<and>
   extent_offset (read_op 0 4294967297) < o_size objBig \<and>
   min (extent_length (read_op 0 4294967297)) (o_size objBig - extent_offset (read_op 0 4294967297)) =
     4294967297 \<and>
   spec_read_byte (o_blocks objBig) (extent_offset (read_op 0 4294967297)) 0 = 0x41 \<and>
   read_reply (handle_osd_op_read (srv_with objBig) req0 (read_op 0 4294967297)) 0 = Some (0, 1, Some 0x42)"
proof -
  have "blocks_inv (o_blocks objBig)"
    by (simp add: blocks_inv_def objBig_def block_mask_val mask_eq_exp_minus_1)
  moreover have "spec_read_byte (o_blocks objBig) (extent_offset (read_op 0 4294967297)) 0 = 0x41"
    by (simp add: spec_read_byte_def objBig_def eval_defs)
  ultimately show ?thesis using read_big_example
    by (simp add: srv_with_def req0_def read_op_def zero_op_def objBig_def)
qed

end
